theory Spec2Isabelle
  imports Main "HOL-Library.Word"
begin

unbundle bit_operations_syntax

section \<open>Bytes, runes and errors\<close>

text \<open>
  The package \<^verbatim>\<open>chunk\<close> (file \<^verbatim>\<open>chunk/reader.go\<close>) wraps a \<^verbatim>\<open>bufio.Reader\<close> and
  counts the bytes and newlines it hands out. A Go \<^verbatim>\<open>byte\<close> is an 8-bit word, a \<^verbatim>\<open>rune\<close>
  a 32-bit one. The counters are Go \<^verbatim>\<open>int\<close>s (64 bits); they count bytes read, so they stay
  far from the wrap-around and are modelled as unbounded integers.
\<close>

type_synonym byte = "8 word"
type_synonym rune = "32 word"

text \<open>
  Errors an underlying \<^verbatim>\<open>io.Reader\<close> (a file, a gzip stream) reports from \<^verbatim>\<open>Read\<close>, and the
  errors of \<^verbatim>\<open>bufio\<close> itself. \<^verbatim>\<open>Read\<close> of a file or of a decompressor never returns one of
  \<^verbatim>\<open>bufio\<close>'s own errors, hence the two types.
\<close>

datatype ioerr = EOF | ErrUnexpectedEOF | ErrHeader | ErrChecksum | CorruptInput

datatype error = IO ioerr | ErrNoProgress | ErrBufferFull | ErrInvalidUnreadRune

section \<open>The underlying byte sources\<close>

text \<open>
  What stands below the buffered reader: the \<^verbatim>\<open>*os.File\<close>, a \<^verbatim>\<open>*gzip.Reader\<close> over it, or
  a \<^verbatim>\<open>*gzip.Reader\<close> over a \<^verbatim>\<open>*bufio.Reader\<close> over it. \<open>iokind\<close> records the layering.
\<close>

datatype iokind = OsFile | GzipReader iokind | BufioReader iokind

text \<open>
  An \<^verbatim>\<open>io.Reader\<close> as a script of the data its successive \<^verbatim>\<open>Read\<close> calls can deliver:
  \<open>chunks\<close> are the pieces in which the data arrives (a \<^verbatim>\<open>Read\<close> returns at most the rest of
  the current piece, so short reads are covered), \<open>final\<close> is the error reported once the
  data is exhausted, and \<open>eager\<close> says whether that error already accompanies the last
  bytes (\<^verbatim>\<open>Read\<close> may return \<^verbatim>\<open>n > 0\<close> together with \<^verbatim>\<open>io.EOF\<close>) or only comes with
  the next call, as for a file.
\<close>

record source =
  chunks :: "byte list list"
  final :: ioerr
  eager :: bool
  kind :: iokind

definition src_Read :: "source \<Rightarrow> nat \<Rightarrow> byte list \<times> error option \<times> source" where
  "src_Read s k =
     (case chunks s of
        [] \<Rightarrow> ([], Some (IO (final s)), s)
      | c # cs \<Rightarrow>
          let n = min k (length c);
              rest = (if n < length c then drop n c # cs else cs)
          in (take n c,
              if rest = [] \<and> eager s then Some (IO (final s)) else None,
              s\<lparr>chunks := rest\<rparr>))"

text \<open>
  An \<^verbatim>\<open>*os.File\<close>: its name and the results of its successive \<^verbatim>\<open>read(2)\<close> calls. At the end
  of the data \<^verbatim>\<open>File.Read\<close> returns \<^verbatim>\<open>0, io.EOF\<close>.
\<close>

record osfile =
  fname :: string
  fdata :: "byte list list"

definition file_source :: "osfile \<Rightarrow> source" where
  "file_source f = \<lparr>chunks = fdata f, final = EOF, eager = False, kind = OsFile\<rparr>"

section \<open>unicode/utf8\<close>

definition RuneError :: rune where "RuneError = 0xFFFD"
definition UTFMax :: nat where "UTFMax = 4"

definition xx :: byte where "xx = 0xF1"
definition as :: byte where "as = 0xF0"
definition s1 :: byte where "s1 = 0x02"
definition s2 :: byte where "s2 = 0x13"
definition s3 :: byte where "s3 = 0x03"
definition s4 :: byte where "s4 = 0x23"
definition s5 :: byte where "s5 = 0x34"
definition s6 :: byte where "s6 = 0x04"
definition s7 :: byte where "s7 = 0x44"

definition locb :: byte where "locb = 0x80"
definition hicb :: byte where "hicb = 0xBF"

text \<open>The table \<^verbatim>\<open>first\<close>: information about the first byte of an encoding.\<close>

definition first :: "byte \<Rightarrow> byte" where
  "first b =
     (if b < 0x80 then as
      else if b < 0xC2 then xx
      else if b < 0xE0 then s1
      else if b = 0xE0 then s2
      else if b < 0xED then s3
      else if b = 0xED then s4
      else if b < 0xF0 then s3
      else if b = 0xF0 then s5
      else if b < 0xF4 then s6
      else if b = 0xF4 then s7
      else xx)"

text \<open>The table \<^verbatim>\<open>acceptRanges\<close>: the range allowed for the second byte.\<close>

definition acceptRanges :: "byte \<Rightarrow> byte \<times> byte" where
  "acceptRanges i =
     (if i = 0 then (locb, hicb)
      else if i = 1 then (0xA0, hicb)
      else if i = 2 then (locb, 0x9F)
      else if i = 3 then (0x90, hicb)
      else if i = 4 then (locb, 0x8F)
      else (0, 0))"

text \<open>
  \<^verbatim>\<open>utf8.FullRune(p)\<close>: do the bytes of \<open>p\<close> begin with a full encoding of a rune (an
  invalid encoding counts as a full rune of width 1)?
\<close>

definition FullRune :: "byte list \<Rightarrow> bool" where
  "FullRune p =
     (case p of
        [] \<Rightarrow> False
      | p0 # _ \<Rightarrow>
          let n = length p; x = first p0 in
          if n \<ge> unat (x AND 7) then True
          else
            let (lo, hi) = acceptRanges (drop_bit 4 x) in
            if n > 1 \<and> (p ! 1 < lo \<or> hi < p ! 1) then True
            else if n > 2 \<and> (p ! 2 < locb \<or> hicb < p ! 2) then True
            else False)"

text \<open>
  \<^verbatim>\<open>utf8.DecodeRune(p)\<close>: the first rune of \<open>p\<close> and its width in bytes;
  \<open>(RuneError, 0)\<close> for the empty slice and \<open>(RuneError, 1)\<close> for an invalid encoding.
  (The source selects between \<open>rune(p[0])\<close> and \<open>RuneError\<close> for \<open>x \<ge> as\<close> with a mask
  computed from the low bit of \<open>x\<close>; the model tests \<open>x = as\<close>.)
\<close>

definition DecodeRune :: "byte list \<Rightarrow> rune \<times> nat" where
  "DecodeRune p =
     (case p of
        [] \<Rightarrow> (RuneError, 0)
      | p0 # _ \<Rightarrow>
          let n = length p; x = first p0 in
          if x \<ge> as then (if x = as then ucast p0 else RuneError, 1)
          else
            let sz = unat (x AND 7); (lo, hi) = acceptRanges (drop_bit 4 x) in
            if n < sz then (RuneError, 1)
            else
              let b1 = p ! 1 in
              if b1 < lo \<or> hi < b1 then (RuneError, 1)
              else if sz \<le> 2 then
                (push_bit 6 (ucast (p0 AND 0x1F)) OR ucast (b1 AND 0x3F), 2)
              else
                let b2 = p ! 2 in
                if b2 < locb \<or> hicb < b2 then (RuneError, 1)
                else if sz \<le> 3 then
                  (push_bit 12 (ucast (p0 AND 0x0F)) OR push_bit 6 (ucast (b1 AND 0x3F))
                     OR ucast (b2 AND 0x3F), 3)
                else
                  let b3 = p ! 3 in
                  if b3 < locb \<or> hicb < b3 then (RuneError, 1)
                  else
                    (push_bit 18 (ucast (p0 AND 0x07)) OR push_bit 12 (ucast (b1 AND 0x3F))
                       OR push_bit 6 (ucast (b2 AND 0x3F)) OR ucast (b3 AND 0x3F), 4))"

section \<open>bufio.Reader\<close>

text \<open>
  The buffered reader of Go's standard library, as far as \<^verbatim>\<open>chunk.Reader\<close> uses it.
  \<open>b_buf\<close> holds the filled part \<^verbatim>\<open>buf[0:w]\<close> of the buffer, so the write position \<^verbatim>\<open>w\<close> is
  \<open>length (b_buf b)\<close> and \<^verbatim>\<open>buf[r:w]\<close> is \<open>drop (b_r b) (b_buf b)\<close>; the bytes beyond \<^verbatim>\<open>w\<close> are
  never read. \<^verbatim>\<open>bufio.NewReader\<close> always allocates \<open>defaultBufSize\<close> bytes, which is
  \<^verbatim>\<open>len(b.buf)\<close> throughout.
\<close>

definition defaultBufSize :: nat where "defaultBufSize = 4096"
definition maxConsecutiveEmptyReads :: nat where "maxConsecutiveEmptyReads = 100"

record bufio =
  b_buf :: "byte list"
  b_rd :: source
  b_r :: nat
  b_err :: "error option"
  b_lastByte :: int
  b_lastRuneSize :: int

definition bufio_NewReader :: "source \<Rightarrow> bufio" where
  "bufio_NewReader s =
     \<lparr>b_buf = [], b_rd = s, b_r = 0, b_err = None, b_lastByte = -1, b_lastRuneSize = -1\<rparr>"

definition Buffered :: "bufio \<Rightarrow> nat" where
  "Buffered b = length (b_buf b) - b_r b"

text \<open>
  \<^verbatim>\<open>fill\<close> slides the unread bytes to the start of the buffer and reads once more into the
  free space, trying up to \<open>maxConsecutiveEmptyReads\<close> times while \<^verbatim>\<open>Read\<close> returns nothing.
  Its panic on a full buffer is unreachable: every caller tests \<open>Buffered b < defaultBufSize\<close>
  first.
\<close>

fun fill_loop :: "nat \<Rightarrow> bufio \<Rightarrow> bufio" where
  "fill_loop 0 b = b\<lparr>b_err := Some ErrNoProgress\<rparr>"
| "fill_loop (Suc i) b =
     (let (p, e, s') = src_Read (b_rd b) (defaultBufSize - length (b_buf b));
          b' = b\<lparr>b_buf := b_buf b @ p, b_rd := s'\<rparr>
      in if e \<noteq> None then b'\<lparr>b_err := e\<rparr>
         else if p \<noteq> [] then b'
         else fill_loop i b')"

definition fill :: "bufio \<Rightarrow> bufio" where
  "fill b =
     fill_loop maxConsecutiveEmptyReads
       (if b_r b > 0 then b\<lparr>b_buf := drop (b_r b) (b_buf b), b_r := 0\<rparr> else b)"

text \<open>\<^verbatim>\<open>bytes.IndexByte\<close>: the index of the first \<open>c\<close> in \<open>s\<close>, if any.\<close>

fun IndexByte :: "byte list \<Rightarrow> byte \<Rightarrow> nat option" where
  "IndexByte [] c = None"
| "IndexByte (x # s) c = (if x = c then Some 0 else map_option Suc (IndexByte s c))"


lemma src_Read_total:
  "src_Read s k = (p, e, s') \<Longrightarrow>
     length p + sum_list (map length (chunks s')) = sum_list (map length (chunks s))"
  by (auto simp: src_Read_def Let_def split: list.splits if_splits)

lemma src_Read_error:
  "src_Read s k = (p, e, s') \<Longrightarrow> e \<noteq> Some ErrBufferFull"
  by (auto simp: src_Read_def Let_def split: list.splits if_splits)

lemma fill_loop_r: "b_r (fill_loop i b) = b_r b"
  by (induction i arbitrary: b) (auto simp: Let_def split: prod.splits)

lemma fill_loop_grows:
  "b_err (fill_loop i b) = None \<Longrightarrow> length (b_buf b) < length (b_buf (fill_loop i b))"
proof (induction i arbitrary: b)
  case 0
  then show ?case by simp
next
  case (Suc i)
  obtain p e s' where rd: "src_Read (b_rd b) (defaultBufSize - length (b_buf b)) = (p, e, s')"
    by (cases "src_Read (b_rd b) (defaultBufSize - length (b_buf b))") auto
  show ?case
  proof (cases "e \<noteq> None")
    case True
    with Suc.prems rd show ?thesis by (auto simp: Let_def)
  next
    case noerr: False
    show ?thesis
    proof (cases "p = []")
      case True
      with noerr rd Suc.prems
      have "b_err (fill_loop i (b\<lparr>b_buf := b_buf b @ p, b_rd := s'\<rparr>)) = None"
        by (simp add: Let_def)
      from Suc.IH [OF this] True noerr rd show ?thesis by (simp add: Let_def)
    next
      case False
      with noerr rd show ?thesis by (simp add: Let_def)
    qed
  qed
qed

lemma fill_grows:
  "b_err (fill b) = None \<Longrightarrow> Buffered b < Buffered (fill b)"
proof -
  assume a: "b_err (fill b) = None"
  let ?b0 = "if b_r b > 0 then b\<lparr>b_buf := drop (b_r b) (b_buf b), b_r := 0\<rparr> else b"
  have "length (b_buf ?b0) < length (b_buf (fill_loop maxConsecutiveEmptyReads ?b0))"
    using a unfolding fill_def by (rule fill_loop_grows)
  moreover have "b_r (fill_loop maxConsecutiveEmptyReads ?b0) = 0"
    by (simp add: fill_loop_r)
  moreover have "length (b_buf ?b0) = Buffered b"
    by (simp add: Buffered_def)
  ultimately show ?thesis
    by (simp add: Buffered_def fill_def)
qed

text \<open>The measure of the loops that call \<^verbatim>\<open>fill\<close> until an error is pending or the buffer is full.\<close>

definition fill_measure :: "bufio \<Rightarrow> nat" where
  "fill_measure b = (if b_err b \<noteq> None then 0 else Suc (defaultBufSize - Buffered b))"

lemma fill_measure_less:
  "b_err b = None \<Longrightarrow> Buffered b < defaultBufSize \<Longrightarrow> fill_measure (fill b) < fill_measure b"
  using fill_grows [of b] by (auto simp: fill_measure_def)

text \<open>
  \<^verbatim>\<open>ReadSlice\<close>: read until the first \<open>delim\<close>, returning the slice of the buffer up to and
  including it. Without a delimiter in the buffer it returns the buffered bytes with the
  pending error, or the whole buffer with \<open>ErrBufferFull\<close> when the buffer is full, and
  fills the buffer otherwise. \<open>s\<close> is the search start: the part scanned before.
\<close>

function ReadSlice_loop :: "byte \<Rightarrow> nat \<Rightarrow> bufio \<Rightarrow> byte list \<times> error option \<times> bufio" where
  "ReadSlice_loop delim s b =
     (case IndexByte (drop (b_r b + s) (b_buf b)) delim of
        Some i \<Rightarrow>
          (take (i + s + 1) (drop (b_r b) (b_buf b)), None, b\<lparr>b_r := b_r b + (i + s) + 1\<rparr>)
      | None \<Rightarrow>
          if b_err b \<noteq> None then
            (drop (b_r b) (b_buf b), b_err b, b\<lparr>b_r := length (b_buf b), b_err := None\<rparr>)
          else if Buffered b \<ge> defaultBufSize then
            (b_buf b, Some ErrBufferFull, b\<lparr>b_r := length (b_buf b)\<rparr>)
          else ReadSlice_loop delim (length (b_buf b) - b_r b) (fill b))"
  by pat_completeness auto
termination
  by (relation "measure (\<lambda>(delim, s, b). fill_measure b)") (auto simp: fill_measure_less)

definition bufio_ReadSlice :: "byte \<Rightarrow> bufio \<Rightarrow> byte list \<times> error option \<times> bufio" where
  "bufio_ReadSlice delim b =
     (let (line, err, b') = ReadSlice_loop delim 0 b
      in (line, err,
          if line \<noteq> [] then b'\<lparr>b_lastByte := uint (last line), b_lastRuneSize := -1\<rparr>
          else b'))"


declare ReadSlice_loop.simps [simp del]

text \<open>
  \<^verbatim>\<open>ReadRune\<close> fills the buffer until it holds a full rune, \<open>UTFMax\<close> bytes, or cannot get more,
  then decodes one rune. At the end of the data it returns the pending error and clears it
  (\<^verbatim>\<open>readErr\<close>).
\<close>

definition ReadRune_more :: "bufio \<Rightarrow> bool" where
  "ReadRune_more b =
     (b_r b + UTFMax > length (b_buf b) \<and> \<not> FullRune (drop (b_r b) (b_buf b))
      \<and> b_err b = None \<and> length (b_buf b) - b_r b < defaultBufSize)"

function ReadRune_fill :: "bufio \<Rightarrow> bufio" where
  "ReadRune_fill b = (if ReadRune_more b then ReadRune_fill (fill b) else b)"
  by pat_completeness auto
termination
  by (relation "measure fill_measure") (auto simp: fill_measure_less Buffered_def ReadRune_more_def)

declare ReadRune_fill.simps [simp del]

definition RuneSelf :: rune where "RuneSelf = 0x80"

definition bufio_ReadRune :: "bufio \<Rightarrow> rune \<times> int \<times> error option \<times> bufio" where
  "bufio_ReadRune b0 =
     (let b = (ReadRune_fill b0)\<lparr>b_lastRuneSize := -1\<rparr> in
      case drop (b_r b) (b_buf b) of
        [] \<Rightarrow> (0, 0, b_err b, b\<lparr>b_err := None\<rparr>)
      | p0 # p \<Rightarrow>
          let (r, size) = (if ucast p0 \<ge> RuneSelf then DecodeRune (p0 # p) else (ucast p0, 1))
          in (r, int size, None,
              b\<lparr>b_r := b_r b + size,
                b_lastByte := uint (b_buf b ! (b_r b + size - 1)),
                b_lastRuneSize := int size\<rparr>))"

text \<open>
  \<^verbatim>\<open>UnreadRune\<close> steps back over the last rune, which only works right after a \<^verbatim>\<open>ReadRune\<close>
  that returned one.
\<close>

definition bufio_UnreadRune :: "bufio \<Rightarrow> error option \<times> bufio" where
  "bufio_UnreadRune b =
     (if b_lastRuneSize b < 0 \<or> int (b_r b) < b_lastRuneSize b
      then (Some ErrInvalidUnreadRune, b)
      else (None, b\<lparr>b_r := b_r b - nat (b_lastRuneSize b),
                    b_lastByte := -1, b_lastRuneSize := -1\<rparr>))"

text \<open>
  \<^verbatim>\<open>Peek(n)\<close> returns the next \<open>n\<close> bytes without advancing the reader, or fewer together
  with the error that stopped the read (which it clears).
\<close>

definition Peek_more :: "nat \<Rightarrow> bufio \<Rightarrow> bool" where
  "Peek_more n b = (Buffered b < n \<and> Buffered b < defaultBufSize \<and> b_err b = None)"

function Peek_fill :: "nat \<Rightarrow> bufio \<Rightarrow> bufio" where
  "Peek_fill n b = (if Peek_more n b then Peek_fill n (fill b) else b)"
  by pat_completeness auto
termination
  by (relation "measure (\<lambda>(n, b). fill_measure b)") (auto simp: fill_measure_less Peek_more_def)

declare Peek_fill.simps [simp del]

definition bufio_Peek :: "nat \<Rightarrow> bufio \<Rightarrow> byte list \<times> error option \<times> bufio" where
  "bufio_Peek n b0 =
     (let b = Peek_fill n (b0\<lparr>b_lastByte := -1, b_lastRuneSize := -1\<rparr>) in
      if n > defaultBufSize then (drop (b_r b) (b_buf b), Some ErrBufferFull, b)
      else if Buffered b < n then
        (take (Buffered b) (drop (b_r b) (b_buf b)),
         (case b_err b of None \<Rightarrow> Some ErrBufferFull | Some e \<Rightarrow> Some e),
         b\<lparr>b_err := None\<rparr>)
      else (take n (drop (b_r b) (b_buf b)), None, b))"

text \<open>
  \<^verbatim>\<open>ReadString\<close> (through \<^verbatim>\<open>collectFragments\<close>) calls \<^verbatim>\<open>ReadSlice\<close> until it finds the
  delimiter or an error other than \<open>ErrBufferFull\<close>, and returns the concatenation of
  what it read.
\<close>

definition pending_measure :: "bufio \<Rightarrow> nat" where
  "pending_measure b =
     Buffered b + sum_list (map length (chunks (b_rd b)))
       + (if b_err b = Some ErrBufferFull then 1 else 0)"

lemma fill_loop_total:
  "length (b_buf (fill_loop i b)) + sum_list (map length (chunks (b_rd (fill_loop i b))))
     = length (b_buf b) + sum_list (map length (chunks (b_rd b)))"
proof (induction i arbitrary: b)
  case 0
  then show ?case by simp
next
  case (Suc i)
  obtain p e s' where rd: "src_Read (b_rd b) (defaultBufSize - length (b_buf b)) = (p, e, s')"
    by (cases "src_Read (b_rd b) (defaultBufSize - length (b_buf b))") auto
  from src_Read_total [OF rd] Suc.IH [of "b\<lparr>b_buf := b_buf b @ p, b_rd := s'\<rparr>"] rd
  show ?case by (auto simp: Let_def)
qed

lemma fill_loop_err:
  "b_err b = None \<Longrightarrow> b_err (fill_loop i b) \<noteq> Some ErrBufferFull"
proof (induction i arbitrary: b)
  case 0
  then show ?case by simp
next
  case (Suc i)
  obtain p e s' where rd: "src_Read (b_rd b) (defaultBufSize - length (b_buf b)) = (p, e, s')"
    by (cases "src_Read (b_rd b) (defaultBufSize - length (b_buf b))") auto
  from src_Read_error [OF rd] Suc.IH [of "b\<lparr>b_buf := b_buf b @ p, b_rd := s'\<rparr>"] rd Suc.prems
  show ?case by (auto simp: Let_def)
qed

lemma fill_pending_measure:
  "b_err b = None \<Longrightarrow> pending_measure (fill b) = pending_measure b"
proof -
  assume a: "b_err b = None"
  let ?b0 = "if b_r b > 0 then b\<lparr>b_buf := drop (b_r b) (b_buf b), b_r := 0\<rparr> else b"
  have e: "b_err ?b0 = None" using a by simp
  have "b_err (fill b) \<noteq> Some ErrBufferFull"
    unfolding fill_def using e by (rule fill_loop_err)
  moreover have "Buffered (fill b) = length (b_buf (fill b))"
    by (simp add: Buffered_def fill_def fill_loop_r)
  moreover have "Buffered b = length (b_buf ?b0)" "chunks (b_rd ?b0) = chunks (b_rd b)"
    by (simp_all add: Buffered_def)
  ultimately show ?thesis
    using fill_loop_total [of maxConsecutiveEmptyReads ?b0] a
    by (simp add: pending_measure_def fill_def)
qed

lemma ReadSlice_loop_full:
  "ReadSlice_loop delim s b = (line, Some ErrBufferFull, b') \<Longrightarrow>
     pending_measure b' < pending_measure b"
proof (induction delim s b rule: ReadSlice_loop.induct)
  case (1 delim s b)
  show ?case
  proof (cases "IndexByte (drop (b_r b + s) (b_buf b)) delim")
    case (Some i)
    with "1.prems" show ?thesis by (simp add: ReadSlice_loop.simps [of delim s b])
  next
    case None
    show ?thesis
    proof (cases "b_err b \<noteq> None")
      case True
      with None "1.prems" show ?thesis
        by (auto simp: ReadSlice_loop.simps [of delim s b] pending_measure_def Buffered_def)
    next
      case noerr: False
      show ?thesis
      proof (cases "Buffered b \<ge> defaultBufSize")
        case True
        with None noerr "1.prems" show ?thesis
          by (auto simp: ReadSlice_loop.simps [of delim s b] pending_measure_def Buffered_def
              defaultBufSize_def)
      next
        case False
        with None noerr "1.prems"
        have "ReadSlice_loop delim (length (b_buf b) - b_r b) (fill b)
                = (line, Some ErrBufferFull, b')"
          by (simp add: ReadSlice_loop.simps [of delim s b])
        from "1.IH" [OF None noerr False this] noerr show ?thesis
          by (simp add: fill_pending_measure)
      qed
    qed
  qed
qed

lemma bufio_ReadSlice_full:
  "bufio_ReadSlice delim b = (frag, Some ErrBufferFull, b') \<Longrightarrow>
     pending_measure b' < pending_measure b"
proof -
  assume a: "bufio_ReadSlice delim b = (frag, Some ErrBufferFull, b')"
  obtain line e b1 where l: "ReadSlice_loop delim 0 b = (line, e, b1)"
    by (cases "ReadSlice_loop delim 0 b") auto
  with a have "e = Some ErrBufferFull" and "pending_measure b' = pending_measure b1"
    by (auto simp: bufio_ReadSlice_def pending_measure_def Buffered_def split: if_splits)
  with ReadSlice_loop_full [of delim 0 b line b1] l show ?thesis by simp
qed

function collectFragments ::
  "byte \<Rightarrow> byte list list \<Rightarrow> bufio \<Rightarrow> byte list list \<times> byte list \<times> error option \<times> bufio" where
  "collectFragments delim fullBuffers b =
     (case bufio_ReadSlice delim b of
        (frag, e, b') \<Rightarrow>
          if e = None then (fullBuffers, frag, None, b')
          else if e \<noteq> Some ErrBufferFull then (fullBuffers, frag, e, b')
          else collectFragments delim (fullBuffers @ [frag]) b')"
  by pat_completeness auto
termination
  by (relation "measure (\<lambda>(delim, full, b). pending_measure b)")
    (auto intro: bufio_ReadSlice_full [OF sym])

declare collectFragments.simps [simp del]

definition bufio_ReadString :: "byte \<Rightarrow> bufio \<Rightarrow> byte list \<times> error option \<times> bufio" where
  "bufio_ReadString delim b =
     (case collectFragments delim [] b of
        (full, frag, err, b') \<Rightarrow> (concat full @ frag, err, b'))"


section \<open>Detecting and opening gzip data\<close>

text \<open>
  \<^verbatim>\<open>filepath.Ext\<close>: the suffix of the path from the last dot of its last element on, empty
  when that element has no dot. The scan runs from the end of the path towards its start.
\<close>

fun Ext_scan :: "string \<Rightarrow> string \<Rightarrow> string" where
  "Ext_scan [] acc = []"
| "Ext_scan (c # cs) acc =
     (if c = CHR ''/'' then []
      else if c = CHR ''.'' then c # acc
      else Ext_scan cs (c # acc))"

definition Ext :: "string \<Rightarrow> string" where
  "Ext path = Ext_scan (rev path) []"

text \<open>
  Whether \<^verbatim>\<open>http.DetectContentType\<close> answers \<^verbatim>\<open>application/x-gzip\<close>: the data starts with
  the signature \<^verbatim>\<open>1F 8B 08\<close>, and the one signature that is tried earlier and can match such
  data does not: the embedded OpenType font pattern, 34 arbitrary bytes followed by \<^verbatim>\<open>LP\<close>.
  Only the first 512 bytes are looked at.
\<close>

definition sniffLen :: nat where "sniffLen = 512"

definition DetectContentType_gzip :: "byte list \<Rightarrow> bool" where
  "DetectContentType_gzip data0 =
     (let data = take sniffLen data0 in
      take 3 data = [0x1F, 0x8B, 0x08]
      \<and> \<not> (length data \<ge> 36 \<and> data ! 34 = 0x4C \<and> data ! 35 = 0x50))"

text \<open>
  The reader handed to \<^verbatim>\<open>gzip.NewReader\<close> is the file itself or the buffered reader over it.
  Either way the decompressor consumes the bytes that reader still has to deliver.
\<close>

datatype ioreader = FileReader osfile | BufReader bufio

fun io_bytes :: "ioreader \<Rightarrow> byte list" where
  "io_bytes (FileReader f) = concat (fdata f)"
| "io_bytes (BufReader b) = drop (b_r b) (b_buf b) @ concat (chunks (b_rd b))"

fun io_kind :: "ioreader \<Rightarrow> iokind" where
  "io_kind (FileReader f) = OsFile"
| "io_kind (BufReader b) = BufioReader (kind (b_rd b))"

text \<open>
  \<^verbatim>\<open>gzip.NewReader\<close> reads the 10-byte header at once and fails when it is short or does
  not start with the gzip magic and the deflate method. The rest of the format (optional
  header fields, the deflate stream, the trailer) belongs to the standard library and is
  a parameter \<open>gz\<close> here: from the raw bytes it gives the error of \<^verbatim>\<open>NewReader\<close>, or the
  pieces in which the decompressed data will arrive, the error that ends them, and
  whether that error comes with the last bytes.
\<close>

type_synonym gunzip = "byte list \<Rightarrow> ioerr + byte list list \<times> ioerr \<times> bool"

definition gzip_NewReader :: "gunzip \<Rightarrow> ioreader \<Rightarrow> ioerr + source" where
  "gzip_NewReader gz gzf =
     (let raw = io_bytes gzf in
      if length raw < 10 then Inl (if raw = [] then EOF else ErrUnexpectedEOF)
      else if raw ! 0 \<noteq> 0x1F \<or> raw ! 1 \<noteq> 0x8B \<or> raw ! 2 \<noteq> 0x08 then Inl ErrHeader
      else
        case gz raw of
          Inl e \<Rightarrow> Inl e
        | Inr (cs, fin, eg) \<Rightarrow>
            Inr \<lparr>chunks = cs, final = fin, eager = eg, kind = GzipReader (io_kind gzf)\<rparr>)"

section \<open>chunk.Reader\<close>

record Reader =
  rd :: bufio
  offset :: int
  line :: int
  compressed :: bool
  filename :: string
  prevOffset :: int
  prevLine :: int

text \<open>
  Modelled from the spec: the helper \<^verbatim>\<open>x.CheckfNoTrace\<close> of package \<^verbatim>\<open>x\<close> is not among the
  sources. By the specification a failure to initialise the decompression layer is
  immediately fatal and reported without a full trace: the process ends and no reader is
  returned.
\<close>

datatype fatal = FatalNoTrace ioerr

definition CheckfNoTrace :: "ioerr + 'a \<Rightarrow> fatal + 'a" where
  "CheckfNoTrace res = (case res of Inl err \<Rightarrow> Inl (FatalNoTrace err) | Inr v \<Rightarrow> Inr v)"

text \<open>
  \<^verbatim>\<open>newReader\<close>: with the extension \<^verbatim>\<open>.gz\<close> the file itself goes to the decompressor
  (\<^verbatim>\<open>gzf = f\<close>); otherwise the file is buffered, its first 512 bytes are peeked at, and the
  buffered reader goes to the decompressor when they look like gzip (\<^verbatim>\<open>gzf = rd.rd\<close>).
  \<open>newReader_gzip\<close> is the block under \<^verbatim>\<open>if gzf != nil\<close>: the decompressor is opened and
  a new buffered reader is put over it. The cleanup function only closes the file and the
  decompressor and is left out.
\<close>

definition newReader_gzip :: "gunzip \<Rightarrow> string \<Rightarrow> ioreader \<Rightarrow> fatal + Reader" where
  "newReader_gzip gz name gzf =
     (case CheckfNoTrace (gzip_NewReader gz gzf) of
        Inl stop \<Rightarrow> Inl stop
      | Inr gzr \<Rightarrow>
          Inr \<lparr>rd = bufio_NewReader gzr, offset = 0, line = 0, compressed = True,
               filename = name, prevOffset = 0, prevLine = 0\<rparr>)"

definition newReader :: "gunzip \<Rightarrow> osfile \<Rightarrow> fatal + Reader" where
  "newReader gz f =
     (let name = fname f in
      if Ext name = ''.gz'' then newReader_gzip gz name (FileReader f)
      else
        let b0 = bufio_NewReader (file_source f);
            (buf, _, b1) = bufio_Peek 512 b0
        in if DetectContentType_gzip buf then newReader_gzip gz name (BufReader b1)
           else Inr \<lparr>rd = b1, offset = 0, line = 0, compressed = False,
                     filename = name, prevOffset = 0, prevLine = 0\<rparr>)"

definition Offset :: "Reader \<Rightarrow> int" where
  "Offset r = offset r"

definition LineCount :: "Reader \<Rightarrow> int" where
  "LineCount r = line r"

text \<open>The loop of \<^verbatim>\<open>ReadSlice\<close> over the bytes it read: one more line for each newline.\<close>

fun range_newlines :: "byte list \<Rightarrow> Reader \<Rightarrow> Reader" where
  "range_newlines [] r = r"
| "range_newlines (b # slc) r =
     range_newlines slc (if b = 0x0A then r\<lparr>line := line r + 1\<rparr> else r)"

definition ReadSlice :: "byte \<Rightarrow> Reader \<Rightarrow> byte list \<times> error option \<times> Reader" where
  "ReadSlice delim r0 =
     (let r = r0\<lparr>prevOffset := offset r0, prevLine := line r0\<rparr>;
          (slc, err, b) = bufio_ReadSlice delim (rd r);
          r = r\<lparr>rd := b, offset := offset r + int (length slc)\<rparr>;
          r = range_newlines slc r
      in (slc, err, r))"

text \<open>\<^verbatim>\<open>strings.Count(str, "\n")\<close>: the number of newline bytes in the string.\<close>

definition Count_newline :: "byte list \<Rightarrow> int" where
  "Count_newline str = int (length (filter (\<lambda>b. b = 0x0A) str))"

definition ReadString :: "byte \<Rightarrow> Reader \<Rightarrow> byte list \<times> error option \<times> Reader" where
  "ReadString delim r0 =
     (let r = r0\<lparr>prevOffset := offset r0, prevLine := line r0\<rparr>;
          (str, err, b) = bufio_ReadString delim (rd r);
          r = r\<lparr>rd := b, offset := offset r + int (length str)\<rparr>;
          r = r\<lparr>line := line r + Count_newline str\<rparr>
      in (str, err, r))"

definition ReadRune :: "Reader \<Rightarrow> rune \<times> int \<times> error option \<times> Reader" where
  "ReadRune r0 =
     (let r = r0\<lparr>prevOffset := offset r0, prevLine := line r0\<rparr>;
          (char, size, err, b) = bufio_ReadRune (rd r);
          r = r\<lparr>rd := b, offset := offset r + size\<rparr>;
          r = (if char = 0x0A then r\<lparr>line := line r + 1\<rparr> else r)
      in (char, size, err, r))"

definition UnreadRune :: "Reader \<Rightarrow> error option \<times> Reader" where
  "UnreadRune r0 =
     (let r = r0\<lparr>offset := prevOffset r0, line := prevLine r0\<rparr>;
          r = r\<lparr>prevOffset := 0, prevLine := 0\<rparr>;
          (err, b) = bufio_UnreadRune (rd r)
      in (err, r\<lparr>rd := b\<rparr>))"


section \<open>Example inputs\<close>

text \<open>
  The file \<^verbatim>\<open>data.rdf\<close> with the three lines \<^verbatim>\<open>"a\nbb\nccc"\<close>, read by the system in one
  piece, and a decompressor that rejects every input, for examples without gzip data.
\<close>

definition abc_file :: osfile where
  "abc_file = \<lparr>fname = ''data.rdf'', fdata = [[0x61, 0x0A, 0x62, 0x62, 0x0A, 0x63, 0x63, 0x63]]\<rparr>"

definition no_gunzip :: gunzip where
  "no_gunzip raw = Inl ErrHeader"

text \<open>The reader \<^verbatim>\<open>newReader\<close> returns for \<open>abc_file\<close>: the peek has buffered the whole file.\<close>

definition abc_reader :: Reader where
  "abc_reader =
     \<lparr>rd = \<lparr>b_buf = [0x61, 0x0A, 0x62, 0x62, 0x0A, 0x63, 0x63, 0x63],
             b_rd = \<lparr>chunks = [], final = EOF, eager = False, kind = OsFile\<rparr>,
             b_r = 0, b_err = None, b_lastByte = -1, b_lastRuneSize = -1\<rparr>,
      offset = 0, line = 0, compressed = False, filename = ''data.rdf'',
      prevOffset = 0, prevLine = 0\<rparr>"

lemma newReader_abc_file: "newReader gz abc_file = Inr abc_reader"
  by code_simp

section \<open>Reading lines: the scenario of three lines\<close>

text \<open>
  Claim C1. On the input \<^verbatim>\<open>"a\nbb\nccc"\<close> (no trailing newline), opened without
  decompression, three calls of \<^verbatim>\<open>ReadSlice('\n')\<close> return \<^verbatim>\<open>"a\n"\<close> and \<^verbatim>\<open>"bb\n"\<close> without
  error and then \<^verbatim>\<open>"ccc"\<close> together with \<^verbatim>\<open>io.EOF\<close>; afterwards \<^verbatim>\<open>LineCount()\<close> is 2 and
  \<^verbatim>\<open>Offset()\<close> is 8.
\<close>

theorem three_lines_scenario:
  "(case newReader gz abc_file of
      Inl stop \<Rightarrow> False
    | Inr r0 \<Rightarrow>
        \<not> compressed r0 \<and>
        (case ReadSlice 0x0A r0 of (a1, e1, r1) \<Rightarrow>
         case ReadSlice 0x0A r1 of (a2, e2, r2) \<Rightarrow>
         case ReadSlice 0x0A r2 of (a3, e3, r3) \<Rightarrow>
           a1 = [0x61, 0x0A] \<and> e1 = None
           \<and> a2 = [0x62, 0x62, 0x0A] \<and> e2 = None
           \<and> a3 = [0x63, 0x63, 0x63] \<and> e3 = Some (IO EOF)
           \<and> LineCount r3 = 2 \<and> Offset r3 = 8))"
  by code_simp

section \<open>Reading and unreading one rune\<close>

lemma first_cases:
  "first p0 = as \<or> first p0 = xx \<or> first p0 = s1 \<or> first p0 = s2 \<or> first p0 = s3
   \<or> first p0 = s4 \<or> first p0 = s5 \<or> first p0 = s6 \<or> first p0 = s7"
  by (simp add: first_def)

lemma DecodeRune_size:
  "DecodeRune (p0 # p) = (c, n) \<Longrightarrow> 1 \<le> n \<and> n \<le> 4 \<and> n \<le> length (p0 # p)"
  using first_cases [of p0]
  by (auto simp: DecodeRune_def Let_def as_def xx_def s1_def s2_def s3_def s4_def s5_def
      s6_def s7_def Suc_le_eq split: if_splits prod.splits)

lemma ReadRune_fill_exit: "\<not> ReadRune_more (ReadRune_fill b)"
proof (induction b rule: ReadRune_fill.induct)
  case (1 b)
  then show ?case by (cases "ReadRune_more b") (simp_all add: ReadRune_fill.simps [of b])
qed

lemma ReadRune_fill_stable: "\<not> ReadRune_more b \<Longrightarrow> ReadRune_fill b = b"
  by (simp add: ReadRune_fill.simps [of b])

lemma ReadRune_more_fields [simp]:
  "ReadRune_more (b\<lparr>b_lastByte := x\<rparr>) = ReadRune_more b"
  "ReadRune_more (b\<lparr>b_lastRuneSize := y\<rparr>) = ReadRune_more b"
  by (simp_all add: ReadRune_more_def)

text \<open>
  After a \<^verbatim>\<open>ReadRune\<close> without error the buffered reader can step back, and reading again
  from there gives the same rune and leaves the same state.
\<close>

lemma bufio_ReadRune_Unread:
  assumes "bufio_ReadRune b0 = (c, sz, None, b1)"
  shows "bufio_UnreadRune b1
           = (None, (ReadRune_fill b0)\<lparr>b_lastByte := -1, b_lastRuneSize := -1\<rparr>)
       \<and> bufio_ReadRune ((ReadRune_fill b0)\<lparr>b_lastByte := -1, b_lastRuneSize := -1\<rparr>)
           = (c, sz, None, b1)"
proof -
  let ?b = "ReadRune_fill b0"
  have ex: "\<not> ReadRune_more ?b"
    by (rule ReadRune_fill_exit)
  show ?thesis
  proof (cases "drop (b_r ?b) (b_buf ?b)")
    case Nil
    with ex have "b_err ?b \<noteq> None"
      by (auto simp: ReadRune_more_def FullRune_def UTFMax_def defaultBufSize_def)
    with Nil assms show ?thesis
      by (simp add: bufio_ReadRune_def Let_def)
  next
    case (Cons p0 p)
    obtain c' n
      where d: "(if ucast p0 \<ge> RuneSelf then DecodeRune (p0 # p) else (ucast p0, 1)) = (c', n)"
      by (cases "(if ucast p0 \<ge> RuneSelf then DecodeRune (p0 # p) else (ucast p0, 1 :: nat))")
        auto
    then have n: "1 \<le> n"
      using DecodeRune_size [of p0 p c' n] by (auto split: if_splits)
    from Cons d assms
    have b1: "b1 = ?b\<lparr>b_lastRuneSize := -1, b_r := b_r ?b + n,
                b_lastByte := uint (b_buf ?b ! (b_r ?b + n - 1)),
                b_lastRuneSize := int n\<rparr>" and c: "c = c'" and sz: "sz = int n"
      by (auto simp: bufio_ReadRune_def Let_def)
    have un: "bufio_UnreadRune b1 = (None, ?b\<lparr>b_lastByte := -1, b_lastRuneSize := -1\<rparr>)"
      using n by (simp add: bufio_UnreadRune_def b1)
    let ?b2 = "?b\<lparr>b_lastByte := -1, b_lastRuneSize := -1\<rparr>"
    have "ReadRune_fill ?b2 = ?b2"
      by (rule ReadRune_fill_stable) (use ex in simp)
    then have "bufio_ReadRune ?b2 = (c, sz, None, b1)"
      using Cons d by (simp add: bufio_ReadRune_def Let_def b1 c sz)
    with un show ?thesis by simp
  qed
qed

text \<open>
  Claim C4. In every reader state in which \<^verbatim>\<open>ReadRune\<close> succeeds, the sequence
  \<^verbatim>\<open>ReadRune; UnreadRune; ReadRune\<close> returns the same rune and the same width from both
  reads (the unread itself succeeds), and right after \<^verbatim>\<open>UnreadRune\<close> the values of
  \<^verbatim>\<open>Offset()\<close> and \<^verbatim>\<open>LineCount()\<close> are those from before the first read.
\<close>

theorem ReadRune_UnreadRune_roundtrip:
  assumes "ReadRune r = (c, sz, None, r1)"
  shows "case UnreadRune r1 of (e, r2) \<Rightarrow>
           e = None \<and> Offset r2 = Offset r \<and> LineCount r2 = LineCount r
           \<and> (case ReadRune r2 of (c', sz', e', r3) \<Rightarrow> c' = c \<and> sz' = sz \<and> e' = None)"
proof -
  obtain b1 where b: "bufio_ReadRune (rd r) = (c, sz, None, b1)" and r1: "rd r1 = b1"
    and p: "prevOffset r1 = offset r" "prevLine r1 = line r"
    using assms by (auto simp: ReadRune_def Let_def split: prod.splits if_splits)
  from bufio_ReadRune_Unread [OF b] r1 p show ?thesis
    by (auto simp: UnreadRune_def ReadRune_def Let_def Offset_def LineCount_def
        split: prod.splits)
qed

theorem ReadRune_UnreadRune_roundtrip_witness:
  "(case ReadRune abc_reader of (c, sz, e0, r1) \<Rightarrow>
      c = 0x61 \<and> sz = 1 \<and> e0 = None
      \<and> (case UnreadRune r1 of (e, r2) \<Rightarrow>
           e = None \<and> Offset r2 = Offset abc_reader \<and> LineCount r2 = LineCount abc_reader
           \<and> (case ReadRune r2 of (c', sz', e', r3) \<Rightarrow> c' = 0x61 \<and> sz' = 1 \<and> e' = None)))"
proof -
  obtain c sz e0 r1 where h: "ReadRune abc_reader = (c, sz, e0, r1)"
    by (cases "ReadRune abc_reader") auto
  have "fst (ReadRune abc_reader) = 0x61" "fst (snd (ReadRune abc_reader)) = 1"
    "fst (snd (snd (ReadRune abc_reader))) = None"
    by code_simp+
  with h have v: "c = 0x61" "sz = 1" "e0 = None" by simp_all
  from ReadRune_UnreadRune_roundtrip [of abc_reader c sz r1] h v show ?thesis
    by simp
qed

text \<open>
  Claim C5. \<^verbatim>\<open>UnreadRune\<close> puts \<^verbatim>\<open>offset\<close> and \<^verbatim>\<open>line\<close> back to the snapshot, which a
  \<^verbatim>\<open>ReadRune\<close> takes from the counters before it reads, and clears the snapshot. It returns
  the error of the buffered reader, \<open>ErrInvalidUnreadRune\<close>, exactly when that reader
  cannot step back (no rune was read last, or the read position is too small). A second
  \<^verbatim>\<open>UnreadRune\<close> in a row always fails.
\<close>

theorem UnreadRune_restores_snapshot:
  "(case ReadRune r0 of (c, sz, err, r1) \<Rightarrow>
      prevOffset r1 = Offset r0 \<and> prevLine r1 = LineCount r0
      \<and> (case UnreadRune r1 of (e, r2) \<Rightarrow>
            Offset r2 = Offset r0 \<and> LineCount r2 = LineCount r0))
   \<and> (case UnreadRune r of (e, r') \<Rightarrow>
      Offset r' = prevOffset r \<and> LineCount r' = prevLine r
      \<and> prevOffset r' = 0 \<and> prevLine r' = 0
      \<and> e = (if b_lastRuneSize (rd r) < 0 \<or> int (b_r (rd r)) < b_lastRuneSize (rd r)
              then Some ErrInvalidUnreadRune else None)
      \<and> fst (UnreadRune r') = Some ErrInvalidUnreadRune)"
  by (auto simp: ReadRune_def UnreadRune_def Let_def Offset_def LineCount_def
      bufio_UnreadRune_def split: prod.splits if_splits)

text \<open>
  Claim C6. \<^verbatim>\<open>UnreadRune\<close> overwrites the counters with the snapshot before it asks the
  buffered reader to step back, so the counters change whether or not it then fails. A
  second \<^verbatim>\<open>UnreadRune\<close> in a row returns an error and leaves \<^verbatim>\<open>Offset()\<close> and
  \<^verbatim>\<open>LineCount()\<close> at 0, the cleared snapshot, wherever the reader was.
\<close>

theorem UnreadRune_twice_zeroes_counters:
  "(case UnreadRune r of (e1, r1) \<Rightarrow>
      Offset r1 = prevOffset r \<and> LineCount r1 = prevLine r
      \<and> (case UnreadRune r1 of (e2, r2) \<Rightarrow>
            e2 = Some ErrInvalidUnreadRune \<and> Offset r2 = 0 \<and> LineCount r2 = 0))"
  by (auto simp: UnreadRune_def Let_def Offset_def LineCount_def bufio_UnreadRune_def
      split: prod.splits if_splits)


text \<open>
  A failing unread after the reader has advanced: after a line and a rune, the first
  \<^verbatim>\<open>UnreadRune\<close> steps back to offset 2; the second one fails and still moves the counters
  to 0.
\<close>

lemma UnreadRune_twice_example:
  "(case ReadSlice 0x0A abc_reader of (a1, e1, r1) \<Rightarrow>
    case ReadRune r1 of (c, sz, e2, r2) \<Rightarrow>
    case UnreadRune r2 of (e3, r3) \<Rightarrow>
    case UnreadRune r3 of (e4, r4) \<Rightarrow>
      Offset r2 = 3 \<and> LineCount r2 = 1
      \<and> e3 = None \<and> Offset r3 = 2 \<and> LineCount r3 = 1
      \<and> e4 = Some ErrInvalidUnreadRune \<and> Offset r4 = 0 \<and> LineCount r4 = 0)"
  by code_simp

section \<open>What the read calls do to the counters and the snapshot\<close>

lemma range_newlines_fields:
  "rd (range_newlines s r) = rd r" "offset (range_newlines s r) = offset r"
  "prevOffset (range_newlines s r) = prevOffset r" "prevLine (range_newlines s r) = prevLine r"
  "line (range_newlines s r) = line r + Count_newline s"
  by (induction s arbitrary: r) (auto simp: Count_newline_def)

lemma ReadSlice_fields:
  "ReadSlice d r = (slc, err, r1) \<Longrightarrow>
     prevOffset r1 = offset r \<and> prevLine r1 = line r
     \<and> offset r1 = offset r + int (length slc) \<and> line r1 = line r + Count_newline slc
     \<and> bufio_ReadSlice d (rd r) = (slc, err, rd r1)"
  by (auto simp: ReadSlice_def Let_def range_newlines_fields split: prod.splits)

lemma ReadString_fields:
  "ReadString d r = (str, err, r1) \<Longrightarrow>
     prevOffset r1 = offset r \<and> prevLine r1 = line r
     \<and> offset r1 = offset r + int (length str) \<and> line r1 = line r + Count_newline str
     \<and> bufio_ReadString d (rd r) = (str, err, rd r1)"
  by (auto simp: ReadString_def Let_def split: prod.splits)

lemma ReadRune_fields:
  "ReadRune r = (c, sz, err, r1) \<Longrightarrow>
     prevOffset r1 = offset r \<and> prevLine r1 = line r
     \<and> offset r1 = offset r + sz \<and> line r1 = line r + (if c = 0x0A then 1 else 0)
     \<and> bufio_ReadRune (rd r) = (c, sz, err, rd r1)"
  by (auto simp: ReadRune_def Let_def split: prod.splits)

lemma UnreadRune_fields:
  "UnreadRune r = (e, r2) \<Longrightarrow>
     offset r2 = prevOffset r \<and> line r2 = prevLine r \<and> prevOffset r2 = 0 \<and> prevLine r2 = 0
     \<and> bufio_UnreadRune (rd r) = (e, rd r2)"
  by (auto simp: UnreadRune_def Let_def split: prod.splits)

lemma bufio_UnreadRune_result:
  "bufio_UnreadRune b = (e, b') \<Longrightarrow>
     b' = (if e = None
           then b\<lparr>b_r := b_r b - nat (b_lastRuneSize b), b_lastByte := -1, b_lastRuneSize := -1\<rparr>
           else b)
     \<and> (b_lastRuneSize b = -1 \<longrightarrow> e = Some ErrInvalidUnreadRune)"
  by (auto simp: bufio_UnreadRune_def split: if_splits)


subsection \<open>The last rune size after reading a line\<close>

lemma fill_loop_last: "b_lastRuneSize (fill_loop i b) = b_lastRuneSize b \<and> b_lastByte (fill_loop i b) = b_lastByte b"
  by (induction i arbitrary: b) (auto simp: Let_def split: prod.splits)

lemma fill_last: "b_lastRuneSize (fill b) = b_lastRuneSize b \<and> b_lastByte (fill b) = b_lastByte b"
  by (simp add: fill_def fill_loop_last)

lemma ReadSlice_loop_last:
  "ReadSlice_loop delim s b = (ln, e, b') \<Longrightarrow> b_lastRuneSize b' = b_lastRuneSize b"
proof (induction delim s b rule: ReadSlice_loop.induct)
  case (1 delim s b)
  from "1.prems" "1.IH" show ?case
    by (auto simp: ReadSlice_loop.simps [of delim s b] fill_last split: option.splits if_splits)
qed

lemma bufio_ReadSlice_last:
  "bufio_ReadSlice delim b = (ln, e, b') \<Longrightarrow>
     b_lastRuneSize b' = (if ln \<noteq> [] then -1 else b_lastRuneSize b)"
  by (auto simp: bufio_ReadSlice_def Let_def ReadSlice_loop_last split: prod.splits if_splits)

lemma collectFragments_last:
  "collectFragments delim full b = (full', frag, e, b') \<Longrightarrow>
     \<exists>more. full' = full @ more
       \<and> b_lastRuneSize b' = (if concat more @ frag \<noteq> [] then -1 else b_lastRuneSize b)"
proof (induction delim full b rule: collectFragments.induct)
  case (1 delim fullBuffers b)
  obtain frag0 e0 b0 where rs: "bufio_ReadSlice delim b = (frag0, e0, b0)"
    by (cases "bufio_ReadSlice delim b") auto
  note l = bufio_ReadSlice_last [OF rs]
  show ?case
  proof (cases "e0 = Some ErrBufferFull")
    case True
    with rs "1.prems" have "collectFragments delim (fullBuffers @ [frag0]) b0 = (full', frag, e, b')"
      by (simp add: collectFragments.simps [of delim fullBuffers b])
    from "1.IH" [OF rs [symmetric] refl _ _ this] True
    obtain more where "full' = (fullBuffers @ [frag0]) @ more"
      "b_lastRuneSize b' = (if concat more @ frag \<noteq> [] then -1 else b_lastRuneSize b0)"
      by auto
    with l show ?thesis
      by (intro exI [of _ "frag0 # more"]) auto
  next
    case False
    with rs "1.prems" have "full' = fullBuffers" "frag = frag0" "b' = b0"
      by (auto simp: collectFragments.simps [of delim fullBuffers b] split: if_splits)
    with l show ?thesis by (intro exI [of _ "[]"]) auto
  qed
qed

lemma bufio_ReadString_last:
  "bufio_ReadString delim b = (str, e, b') \<Longrightarrow>
     b_lastRuneSize b' = (if str \<noteq> [] then -1 else b_lastRuneSize b)"
  by (auto simp: bufio_ReadString_def split: prod.splits if_splits dest!: collectFragments_last)



text \<open>
  Claim C10. Each of \<^verbatim>\<open>ReadSlice\<close>, \<^verbatim>\<open>ReadString\<close> and \<^verbatim>\<open>ReadRune\<close> overwrites the snapshot
  with the counters from before the call. So an \<^verbatim>\<open>UnreadRune\<close> right after a \<^verbatim>\<open>ReadSlice\<close> or
  \<^verbatim>\<open>ReadString\<close> takes the counters back by the whole chunk, while the buffered reader
  steps back by the size of its last rune at most, and not at all (with an error) when the
  chunk was not empty: the counters and the position in the stream then disagree.
\<close>

theorem reads_overwrite_snapshot:
  "(case ReadSlice delim r of (slc, err, r1) \<Rightarrow>
      prevOffset r1 = Offset r \<and> prevLine r1 = LineCount r
      \<and> Offset r1 = Offset r + int (length slc)
      \<and> (case UnreadRune r1 of (e, r2) \<Rightarrow>
            Offset r2 = Offset r \<and> LineCount r2 = LineCount r
            \<and> (slc \<noteq> [] \<longrightarrow> e = Some ErrInvalidUnreadRune \<and> rd r2 = rd r1)
            \<and> rd r2 = (if e = None
                        then (rd r1)\<lparr>b_r := b_r (rd r1) - nat (b_lastRuneSize (rd r1)),
                                     b_lastByte := -1, b_lastRuneSize := -1\<rparr>
                        else rd r1)))
   \<and> (case ReadString delim r of (str, err, r1) \<Rightarrow>
      prevOffset r1 = Offset r \<and> prevLine r1 = LineCount r
      \<and> Offset r1 = Offset r + int (length str)
      \<and> (case UnreadRune r1 of (e, r2) \<Rightarrow>
            Offset r2 = Offset r \<and> LineCount r2 = LineCount r
            \<and> (str \<noteq> [] \<longrightarrow> e = Some ErrInvalidUnreadRune \<and> rd r2 = rd r1)
            \<and> rd r2 = (if e = None
                        then (rd r1)\<lparr>b_r := b_r (rd r1) - nat (b_lastRuneSize (rd r1)),
                                     b_lastByte := -1, b_lastRuneSize := -1\<rparr>
                        else rd r1)))
   \<and> (case ReadRune r of (c, sz, err, r1) \<Rightarrow>
      prevOffset r1 = Offset r \<and> prevLine r1 = LineCount r)"
proof -
  have slice: "case ReadSlice delim r of (slc, err, r1) \<Rightarrow>
      prevOffset r1 = Offset r \<and> prevLine r1 = LineCount r
      \<and> Offset r1 = Offset r + int (length slc)
      \<and> (case UnreadRune r1 of (e, r2) \<Rightarrow>
            Offset r2 = Offset r \<and> LineCount r2 = LineCount r
            \<and> (slc \<noteq> [] \<longrightarrow> e = Some ErrInvalidUnreadRune \<and> rd r2 = rd r1)
            \<and> rd r2 = (if e = None
                        then (rd r1)\<lparr>b_r := b_r (rd r1) - nat (b_lastRuneSize (rd r1)),
                                     b_lastByte := -1, b_lastRuneSize := -1\<rparr>
                        else rd r1))"
  proof -
    obtain slc err r1 where a: "ReadSlice delim r = (slc, err, r1)"
      by (cases "ReadSlice delim r") auto
    obtain e r2 where b: "UnreadRune r1 = (e, r2)"
      by (cases "UnreadRune r1") auto
    note f = ReadSlice_fields [OF a] and g = UnreadRune_fields [OF b]
    from f have l: "slc \<noteq> [] \<longrightarrow> b_lastRuneSize (rd r1) = -1"
      by (auto dest: bufio_ReadSlice_last)
    from g have "bufio_UnreadRune (rd r1) = (e, rd r2)" by simp
    from bufio_UnreadRune_result [OF this] l f g a b show ?thesis
      by (simp add: Offset_def LineCount_def)
  qed
  have string: "case ReadString delim r of (str, err, r1) \<Rightarrow>
      prevOffset r1 = Offset r \<and> prevLine r1 = LineCount r
      \<and> Offset r1 = Offset r + int (length str)
      \<and> (case UnreadRune r1 of (e, r2) \<Rightarrow>
            Offset r2 = Offset r \<and> LineCount r2 = LineCount r
            \<and> (str \<noteq> [] \<longrightarrow> e = Some ErrInvalidUnreadRune \<and> rd r2 = rd r1)
            \<and> rd r2 = (if e = None
                        then (rd r1)\<lparr>b_r := b_r (rd r1) - nat (b_lastRuneSize (rd r1)),
                                     b_lastByte := -1, b_lastRuneSize := -1\<rparr>
                        else rd r1))"
  proof -
    obtain str err r1 where a: "ReadString delim r = (str, err, r1)"
      by (cases "ReadString delim r") auto
    obtain e r2 where b: "UnreadRune r1 = (e, r2)"
      by (cases "UnreadRune r1") auto
    note f = ReadString_fields [OF a] and g = UnreadRune_fields [OF b]
    from f have l: "str \<noteq> [] \<longrightarrow> b_lastRuneSize (rd r1) = -1"
      by (auto dest: bufio_ReadString_last)
    from g have "bufio_UnreadRune (rd r1) = (e, rd r2)" by simp
    from bufio_UnreadRune_result [OF this] l f g a b show ?thesis
      by (simp add: Offset_def LineCount_def)
  qed
  have rune: "case ReadRune r of (c, sz, err, r1) \<Rightarrow>
      prevOffset r1 = Offset r \<and> prevLine r1 = LineCount r"
    by (auto simp: Offset_def LineCount_def dest: ReadRune_fields)
  from slice string rune show ?thesis by blast
qed


theorem reads_overwrite_snapshot_witness:
  "(case ReadSlice 0x0A abc_reader of (slc, err, r1) \<Rightarrow>
      slc = [0x61, 0x0A] \<and> Offset r1 = 2
      \<and> (case UnreadRune r1 of (e, r2) \<Rightarrow>
            e = Some ErrInvalidUnreadRune \<and> Offset r2 = 0 \<and> LineCount r2 = 0
            \<and> rd r2 = rd r1))"
proof -
  obtain slc err r1 where a: "ReadSlice 0x0A abc_reader = (slc, err, r1)"
    by (cases "ReadSlice 0x0A abc_reader") auto
  obtain e r2 where b: "UnreadRune r1 = (e, r2)"
    by (cases "UnreadRune r1") auto
  have "fst (ReadSlice 0x0A abc_reader) = [0x61, 0x0A]"
    by code_simp
  with a have s: "slc = [0x61, 0x0A]" by simp
  have z: "Offset abc_reader = 0" "LineCount abc_reader = 0"
    by (simp_all add: Offset_def LineCount_def abc_reader_def)
  from reads_overwrite_snapshot [where delim = "0x0A" and r = abc_reader] a b s z show ?thesis
    by simp
qed

text \<open>
  The disagreement, on the three lines: after \<^verbatim>\<open>ReadSlice; UnreadRune\<close> the next
  \<^verbatim>\<open>ReadSlice\<close> returns the second line, and \<^verbatim>\<open>Offset()\<close> is 3 where 5 bytes have been read.
\<close>

lemma rollback_desynchronises_example:
  "(case ReadSlice 0x0A abc_reader of (a1, e1, r1) \<Rightarrow>
    case UnreadRune r1 of (e2, r2) \<Rightarrow>
    case ReadSlice 0x0A r2 of (a3, e3, r3) \<Rightarrow>
      a1 = [0x61, 0x0A] \<and> a3 = [0x62, 0x62, 0x0A] \<and> Offset r3 = 3 \<and> LineCount r3 = 1)"
  by code_simp

section \<open>The counters after a sequence of read calls\<close>

text \<open>
  A caller's sequence of read calls and what each call yields: the bytes of a line with
  the error, or a rune with its width and the error.
\<close>

datatype read_call = CallReadSlice byte | CallReadString byte | CallReadRune

datatype outcome = BytesRead "byte list" "error option" | RuneRead rune int "error option"

fun call_read :: "read_call \<Rightarrow> Reader \<Rightarrow> outcome \<times> Reader" where
  "call_read (CallReadSlice d) r = (case ReadSlice d r of (slc, err, r') \<Rightarrow> (BytesRead slc err, r'))"
| "call_read (CallReadString d) r = (case ReadString d r of (str, err, r') \<Rightarrow> (BytesRead str err, r'))"
| "call_read CallReadRune r = (case ReadRune r of (c, sz, err, r') \<Rightarrow> (RuneRead c sz err, r'))"

fun run_reads :: "read_call list \<Rightarrow> Reader \<Rightarrow> outcome list \<times> Reader" where
  "run_reads [] r = ([], r)"
| "run_reads (c # cs) r =
     (case call_read c r of (out, r') \<Rightarrow>
      case run_reads cs r' of (outs, r'') \<Rightarrow> (out # outs, r''))"

fun width :: "outcome \<Rightarrow> int" where
  "width (BytesRead bs err) = int (length bs)"
| "width (RuneRead c sz err) = sz"

fun newlines :: "outcome \<Rightarrow> int" where
  "newlines (BytesRead bs err) = Count_newline bs"
| "newlines (RuneRead c sz err) = (if c = 0x0A then 1 else 0)"

text \<open>
  A history may also hold calls of \<^verbatim>\<open>UnreadRune\<close>. Each call leaves an event: what a read
  call yielded, or the error of the unread.
\<close>

datatype call = CallRead read_call | CallUnreadRune

datatype event = Yielded outcome | Unread "error option"

fun call_step :: "call \<Rightarrow> Reader \<Rightarrow> event \<times> Reader" where
  "call_step (CallRead c) r = (case call_read c r of (out, r') \<Rightarrow> (Yielded out, r'))"
| "call_step CallUnreadRune r = (case UnreadRune r of (e, r') \<Rightarrow> (Unread e, r'))"

fun run_calls :: "call list \<Rightarrow> Reader \<Rightarrow> event list \<times> Reader" where
  "run_calls [] r = ([], r)"
| "run_calls (c # cs) r =
     (case call_step c r of (ev, r') \<Rightarrow>
      case run_calls cs r' of (evs, r'') \<Rightarrow> (ev # evs, r''))"

text \<open>What the read calls of a history yielded, in order.\<close>

fun yielded :: "event list \<Rightarrow> outcome list" where
  "yielded [] = []"
| "yielded (Yielded out # evs) = out # yielded evs"
| "yielded (Unread e # evs) = yielded evs"

text \<open>
  \<open>unreads_follow_runes prev evs\<close>: in the events \<open>evs\<close>, which come after the event
  \<open>prev\<close> (if any), every \<^verbatim>\<open>UnreadRune\<close> directly follows a \<^verbatim>\<open>ReadRune\<close> that returned a rune
  without error.
\<close>

fun rune_read :: "event option \<Rightarrow> bool" where
  "rune_read (Some (Yielded (RuneRead c sz None))) = True"
| "rune_read prev = False"

fun unreads_follow_runes :: "event option \<Rightarrow> event list \<Rightarrow> bool" where
  "unreads_follow_runes prev [] = True"
| "unreads_follow_runes prev (Yielded out # evs) = unreads_follow_runes (Some (Yielded out)) evs"
| "unreads_follow_runes prev (Unread e # evs) =
     (rune_read prev \<and> unreads_follow_runes (Some (Unread e)) evs)"

text \<open>
  \<open>net count prev evs\<close>: what the read calls among \<open>evs\<close> yielded, counted by \<open>count\<close>
  (\<open>width\<close> for bytes, \<open>newlines\<close> for newlines), less what was given back: an \<^verbatim>\<open>UnreadRune\<close>
  without error gives back what the read call directly before it yielded.
\<close>

fun taken_back :: "(outcome \<Rightarrow> int) \<Rightarrow> event option \<Rightarrow> error option \<Rightarrow> int" where
  "taken_back count (Some (Yielded out)) None = count out"
| "taken_back count prev e = 0"

fun net :: "(outcome \<Rightarrow> int) \<Rightarrow> event option \<Rightarrow> event list \<Rightarrow> int" where
  "net count prev [] = 0"
| "net count prev (Yielded out # evs) = count out + net count (Some (Yielded out)) evs"
| "net count prev (Unread e # evs) = net count (Some (Unread e)) evs - taken_back count prev e"


lemma call_read_counters:
  "call_read c r = (out, r') \<Longrightarrow>
     offset r' = offset r + width out \<and> line r' = line r + newlines out"
  by (cases c) (auto split: prod.splits dest: ReadSlice_fields ReadString_fields ReadRune_fields)

lemma run_reads_counters:
  "run_reads cs r = (outs, r') \<Longrightarrow>
     offset r' = offset r + sum_list (map width outs)
     \<and> line r' = line r + sum_list (map newlines outs)"
proof (induction cs arbitrary: r outs r')
  case Nil
  then show ?case by simp
next
  case (Cons c cs)
  obtain out r1 where a: "call_read c r = (out, r1)" by (cases "call_read c r") auto
  obtain outs1 r2 where b: "run_reads cs r1 = (outs1, r2)" by (cases "run_reads cs r1") auto
  from Cons.prems a b have "outs = out # outs1" "r' = r2" by auto
  with call_read_counters [OF a] Cons.IH [OF b] show ?case by simp
qed

lemma newReader_counters:
  "newReader gz f = Inr r \<Longrightarrow> offset r = 0 \<and> line r = 0 \<and> prevOffset r = 0 \<and> prevLine r = 0 \<and> filename r = fname f"
  by (auto simp: newReader_def newReader_gzip_def Let_def split: if_splits prod.splits sum.splits)


text \<open>
  With calls of \<^verbatim>\<open>UnreadRune\<close> in the history: an \<^verbatim>\<open>UnreadRune\<close> right after a \<^verbatim>\<open>ReadRune\<close>
  without error succeeds and takes the counters back by that rune.
\<close>

lemma rune_read_cases: "rune_read prev \<Longrightarrow> \<exists>c sz. prev = Some (Yielded (RuneRead c sz None))"
  by (induction prev rule: rune_read.induct) auto

lemma UnreadRune_after_ReadRune:
  assumes "ReadRune rp = (c, sz, None, r)" and "UnreadRune r = (e, r1)"
  shows "e = None \<and> offset r1 = offset r - sz \<and> line r1 = line r - (if c = 0x0A then 1 else 0)"
proof -
  note f = ReadRune_fields [OF assms(1)] and g = UnreadRune_fields [OF assms(2)]
  from f have "bufio_ReadRune (rd rp) = (c, sz, None, rd r)" by simp
  from bufio_ReadRune_Unread [OF this] g have "e = None" by simp
  with f g show ?thesis by simp
qed

lemma call_read_rune:
  "call_read c r = (RuneRead ch sz err, r1) \<Longrightarrow> ReadRune r = (ch, sz, err, r1)"
  by (cases c) (auto split: prod.splits)

text \<open>
  The induction over the history carries the event \<open>prev\<close> before the calls still to come:
  when it is a rune read without error, the state is the one that \<^verbatim>\<open>ReadRune\<close> left.
\<close>

lemma run_calls_counters:
  assumes "run_calls calls r = (evs, r')" and "unreads_follow_runes prev evs"
    and "\<And>c sz. prev = Some (Yielded (RuneRead c sz None)) \<Longrightarrow> \<exists>rp. ReadRune rp = (c, sz, None, r)"
  shows "offset r' = offset r + net width prev evs
     \<and> line r' = line r + net newlines prev evs
     \<and> Unread (Some err) \<notin> set evs"
  using assms
proof (induction calls arbitrary: r evs prev)
  case Nil
  then show ?case by simp
next
  case (Cons c cs)
  obtain ev r1 where a: "call_step c r = (ev, r1)" by (cases "call_step c r") auto
  obtain evs1 where b: "run_calls cs r1 = (evs1, r')" and evs: "evs = ev # evs1"
    using Cons.prems(1) a by (auto split: prod.splits)
  show ?case
  proof (cases c)
    case (CallRead rc)
    with a obtain out where o: "call_read rc r = (out, r1)" and ev: "ev = Yielded out"
      by (auto split: prod.splits)
    from Cons.prems(2) evs ev have u: "unreads_follow_runes (Some (Yielded out)) evs1" by simp
    have "\<exists>rp. ReadRune rp = (ch, sz, None, r1)"
      if "Some (Yielded out) = Some (Yielded (RuneRead ch sz None))" for ch sz
      using that o by (auto dest: call_read_rune)
    from Cons.IH [OF b u this] call_read_counters [OF o] evs ev
    show ?thesis by simp
  next
    case CallUnreadRune
    with a obtain e where o: "UnreadRune r = (e, r1)" and ev: "ev = Unread e"
      by (auto split: prod.splits)
    from Cons.prems(2) evs ev have p: "rune_read prev"
      and u: "unreads_follow_runes (Some (Unread e)) evs1" by simp_all
    from rune_read_cases [OF p] obtain ch sz where pr: "prev = Some (Yielded (RuneRead ch sz None))"
      by auto
    from Cons.prems(3) [OF pr] obtain rp where "ReadRune rp = (ch, sz, None, r)"
      by auto
    note x = UnreadRune_after_ReadRune [OF this o]
    have "\<exists>rp. ReadRune rp = (ch', sz', None, r1)"
      if "Some (Unread e) = Some (Yielded (RuneRead ch' sz' None))" for ch' sz'
      using that by simp
    from Cons.IH [OF b u this] x evs ev pr show ?thesis by simp
  qed
qed

text \<open>A history of read calls only is a sequence of read calls, and nothing is given back.\<close>

lemma run_calls_reads:
  "run_calls (map CallRead reads) r
     = (map Yielded (fst (run_reads reads r)), snd (run_reads reads r))"
  by (induction reads arbitrary: r) (auto split: prod.splits)

lemma net_reads: "net count prev (map Yielded outs) = sum_list (map count outs)"
  by (induction outs arbitrary: prev) auto

lemma yielded_reads: "yielded (map Yielded outs) = outs"
  by (induction outs) auto


text \<open>
  The claim C2 as stated fails once \<^verbatim>\<open>UnreadRune\<close> is called: the counters go back to the
  snapshot, so they no longer count what the read calls yielded. On the three lines,
  \<^verbatim>\<open>ReadRune; UnreadRune; ReadRune\<close> are two successful \<^verbatim>\<open>ReadRune\<close> calls of width 1 with
  \<^verbatim>\<open>Offset()\<close> at 1; and after \<^verbatim>\<open>ReadSlice; UnreadRune; ReadSlice\<close>, where the unread fails and
  gives nothing back, the two lines read have 5 bytes and 2 newlines with \<^verbatim>\<open>Offset()\<close> at 3
  and \<^verbatim>\<open>LineCount()\<close> at 1.
\<close>

theorem unread_breaks_byte_count_counterexample:
  "(case newReader no_gunzip abc_file of
      Inl stop \<Rightarrow> False
    | Inr r0 \<Rightarrow>
        \<not> compressed r0
        \<and> (case run_calls [CallRead CallReadRune, CallUnreadRune, CallRead CallReadRune] r0 of
             (evs, r) \<Rightarrow>
               evs = [Yielded (RuneRead 0x61 1 None), Unread None, Yielded (RuneRead 0x61 1 None)]
               \<and> sum_list (map width (yielded evs)) = 2 \<and> Offset r = 1)
        \<and> (case run_calls [CallRead (CallReadSlice 0x0A), CallUnreadRune,
                           CallRead (CallReadSlice 0x0A)] r0 of
             (evs, r) \<Rightarrow>
               evs = [Yielded (BytesRead [0x61, 0x0A] None), Unread (Some ErrInvalidUnreadRune),
                      Yielded (BytesRead [0x62, 0x62, 0x0A] None)]
               \<and> sum_list (map width (yielded evs)) = 5 \<and> Offset r = 3
               \<and> sum_list (map newlines (yielded evs)) = 2 \<and> LineCount r = 1))"
  by code_simp

text \<open>
  Claim C2, amended. From a reader as \<^verbatim>\<open>newReader\<close> returns it, with or without a gzip
  layer: after any sequence of read calls (and no \<^verbatim>\<open>UnreadRune\<close>), \<^verbatim>\<open>Offset()\<close> is the number
  of bytes the calls yielded (the widths of the runes and the lengths of the lines) and
  \<^verbatim>\<open>LineCount()\<close> the number of newlines among them; for \<open>reads = replicate N CallReadRune\<close>
  these are the sum of the widths of N \<^verbatim>\<open>ReadRune\<close> calls and the number of newline runes.
  After a history in which every \<^verbatim>\<open>UnreadRune\<close> directly follows a \<^verbatim>\<open>ReadRune\<close> that returned
  no error, every \<^verbatim>\<open>UnreadRune\<close> has succeeded, and \<^verbatim>\<open>Offset()\<close> and \<^verbatim>\<open>LineCount()\<close> are the
  bytes and newlines yielded less those of the runes given back.
\<close>

theorem counters_count_net_bytes:
  assumes "newReader gz f = Inr r0"
  shows "(case run_reads reads r0 of
            (outs, r) \<Rightarrow>
              Offset r = sum_list (map width outs) \<and> LineCount r = sum_list (map newlines outs))
         \<and> (case run_calls calls r0 of
              (evs, r) \<Rightarrow>
                unreads_follow_runes None evs \<longrightarrow>
                  Offset r = net width None evs \<and> LineCount r = net newlines None evs
                  \<and> (\<forall>e. Unread e \<in> set evs \<longrightarrow> e = None))"
proof -
  note z = newReader_counters [OF assms]
  obtain outs r where a: "run_reads reads r0 = (outs, r)"
    by (cases "run_reads reads r0") auto
  from run_reads_counters [OF a] z
  have 1: "Offset r = sum_list (map width outs) \<and> LineCount r = sum_list (map newlines outs)"
    by (simp add: Offset_def LineCount_def)
  obtain evs r' where b: "run_calls calls r0 = (evs, r')"
    by (cases "run_calls calls r0") auto
  have 2: "Offset r' = net width None evs \<and> LineCount r' = net newlines None evs
           \<and> (\<forall>e. Unread e \<in> set evs \<longrightarrow> e = None)"
    if u: "unreads_follow_runes None evs"
  proof -
    note c = run_calls_counters [OF b u, simplified]
    from c have "Unread (Some err) \<notin> set evs" for err
      by simp
    then have "\<forall>e. Unread e \<in> set evs \<longrightarrow> e = None"
      by (metis option.exhaust)
    with c z show ?thesis
      by (simp add: Offset_def LineCount_def)
  qed
  from 1 2 a b show ?thesis by simp
qed

theorem counters_count_net_bytes_witness:
  "newReader no_gunzip abc_file = Inr abc_reader
   \<and> (case run_reads [CallReadRune, CallReadSlice 0x0A, CallReadString 0x0A, CallReadRune]
             abc_reader of
        (outs, r) \<Rightarrow>
          outs = [RuneRead 0x61 1 None, BytesRead [0x0A] None,
                  BytesRead [0x62, 0x62, 0x0A] None, RuneRead 0x63 1 None]
          \<and> Offset r = 6 \<and> LineCount r = 2)
   \<and> (case run_calls [CallRead CallReadRune, CallRead CallReadRune, CallUnreadRune,
                      CallRead (CallReadString 0x0A)] abc_reader of
        (evs, r) \<Rightarrow>
          evs = [Yielded (RuneRead 0x61 1 None), Yielded (RuneRead 0x0A 1 None), Unread None,
                 Yielded (BytesRead [0x0A] None)]
          \<and> unreads_follow_runes None evs
          \<and> Offset r = 2 \<and> LineCount r = 1)"
proof -
  let ?reads = "[CallReadRune, CallReadSlice 0x0A, CallReadString 0x0A, CallReadRune]"
  let ?calls = "[CallRead CallReadRune, CallRead CallReadRune, CallUnreadRune,
                 CallRead (CallReadString 0x0A)]"
  obtain outs r where a: "run_reads ?reads abc_reader = (outs, r)"
    by (cases "run_reads ?reads abc_reader") auto
  have "fst (run_reads ?reads abc_reader)
          = [RuneRead 0x61 1 None, BytesRead [0x0A] None,
             BytesRead [0x62, 0x62, 0x0A] None, RuneRead 0x63 1 None]"
    by code_simp
  with a have o: "outs = [RuneRead 0x61 1 None, BytesRead [0x0A] None,
                         BytesRead [0x62, 0x62, 0x0A] None, RuneRead 0x63 1 None]"
    by simp
  obtain evs r' where b: "run_calls ?calls abc_reader = (evs, r')"
    by (cases "run_calls ?calls abc_reader") auto
  have "fst (run_calls ?calls abc_reader)
          = [Yielded (RuneRead 0x61 1 None), Yielded (RuneRead 0x0A 1 None), Unread None,
             Yielded (BytesRead [0x0A] None)]"
    by code_simp
  with b have e: "evs = [Yielded (RuneRead 0x61 1 None), Yielded (RuneRead 0x0A 1 None),
                        Unread None, Yielded (BytesRead [0x0A] None)]"
    by simp
  then have u: "unreads_follow_runes None evs" by simp
  from counters_count_net_bytes [OF newReader_abc_file [of no_gunzip],
      where reads = ?reads and calls = ?calls] a b o e u
  have "Offset r = 6 \<and> LineCount r = 2 \<and> Offset r' = 2 \<and> LineCount r' = 1"
    by (simp add: Count_newline_def)
  with a b o e u newReader_abc_file [of no_gunzip] show ?thesis by simp
qed

section \<open>The layers newReader builds\<close>

text \<open>
  Example data: the gzip stream of the three lines (as \<^verbatim>\<open>gzip -9\<close> writes it, without
  name and time), the gzip stream of that stream, and the gzip stream of 4096 letters
  \<^verbatim>\<open>a\<close>; and a decompressor that knows these three streams only. It delivers the data in
  one piece, with \<^verbatim>\<open>io.EOF\<close> in the same \<^verbatim>\<open>Read\<close>, as Go's decompressor does at the end of
  the last block.
\<close>

definition abc_gzip :: "byte list" where
  "abc_gzip =
     [0x1F, 0x8B, 0x08, 0x00, 0x00, 0x00, 0x00, 0x00, 0x02, 0xFF, 0x4B, 0xE4, 0x4A, 0x4A,
      0xE2, 0x4A, 0x4E, 0x4E, 0x06, 0x00, 0xE5, 0x37, 0x9A, 0xC4, 0x08, 0x00, 0x00, 0x00]"

definition abc_gzip_gzip :: "byte list" where
  "abc_gzip_gzip =
     [0x1F, 0x8B, 0x08, 0x00, 0x00, 0x00, 0x00, 0x00, 0x02, 0xFF, 0x93, 0xEF, 0xE6, 0x60,
      0x00, 0x01, 0xA6, 0xFF, 0xDE, 0x4F, 0xBC, 0xBC, 0x1E, 0x79, 0xF9, 0xF9, 0xB1, 0x31,
      0x3C, 0x35, 0x9F, 0x75, 0x04, 0x24, 0x0A, 0x00, 0x01, 0xC6, 0x44, 0x33, 0x1C, 0x00,
      0x00, 0x00]"

definition big_gzip :: "byte list" where
  "big_gzip =
     [0x1F, 0x8B, 0x08, 0x00, 0x00, 0x00, 0x00, 0x00, 0x02, 0xFF, 0xED, 0xC1, 0x01, 0x0D,
      0x00, 0x00, 0x00, 0xC2, 0xA0, 0xAC, 0xEF, 0x5F, 0xC2, 0x1E, 0x0E, 0x28, 0x00, 0x00,
      0x00, 0xE0, 0xDD, 0x00, 0x73, 0xDC, 0x99, 0x9C, 0x00, 0x10, 0x00, 0x00]"

definition example_gunzip :: gunzip where
  "example_gunzip raw =
     (if raw = abc_gzip
      then Inr ([[0x61, 0x0A, 0x62, 0x62, 0x0A, 0x63, 0x63, 0x63]], EOF, True)
      else if raw = abc_gzip_gzip then Inr ([abc_gzip], EOF, True)
      else if raw = big_gzip then Inr ([replicate 4096 0x61], EOF, True)
      else Inl ErrHeader)"

lemma src_Read_kind: "src_Read s k = (p, e, s') \<Longrightarrow> kind s' = kind s"
  by (auto simp: src_Read_def Let_def split: list.splits)

lemma fill_loop_kind: "kind (b_rd (fill_loop i b)) = kind (b_rd b)"
  by (induction i arbitrary: b) (auto simp: Let_def split: prod.splits dest: src_Read_kind)

lemma fill_kind: "kind (b_rd (fill b)) = kind (b_rd b)"
  by (simp add: fill_def fill_loop_kind)

lemma Peek_fill_kind: "kind (b_rd (Peek_fill n b)) = kind (b_rd b)"
proof (induction n b rule: Peek_fill.induct)
  case (1 n b)
  then show ?case
    by (cases "Peek_more n b") (simp_all add: Peek_fill.simps [of n b] fill_kind)
qed

lemma bufio_Peek_kind: "bufio_Peek n b = (p, e, b') \<Longrightarrow> kind (b_rd b') = kind (b_rd b)"
  by (auto simp: bufio_Peek_def Let_def Peek_fill_kind split: if_splits)


text \<open>
  The field \<^verbatim>\<open>rd\<close> of the reader is a \<^verbatim>\<open>*bufio.Reader\<close>; \<open>underlyingStream\<close> is the stack of
  layers it stands for, down to the file.
\<close>

fun gzip_layers :: "iokind \<Rightarrow> nat" where
  "gzip_layers OsFile = 0"
| "gzip_layers (GzipReader k) = Suc (gzip_layers k)"
| "gzip_layers (BufioReader k) = gzip_layers k"

definition underlyingStream :: "Reader \<Rightarrow> iokind" where
  "underlyingStream r = BufioReader (kind (b_rd (rd r)))"


text \<open>
  Claim C9. When \<^verbatim>\<open>newReader\<close> returns a reader, its stream is a buffered reader in every
  configuration: over the file when nothing is decompressed (the reader that peeked),
  and a fresh buffered reader over the decompressor otherwise, which stands over the file
  (extension \<^verbatim>\<open>.gz\<close>) or over the buffered reader that peeked (sniffed). There is one
  decompression layer when \<^verbatim>\<open>compressed\<close> is set and none otherwise.
\<close>

theorem underlying_stream_layers:
  assumes "newReader gz f = Inr r"
  shows "underlyingStream r =
           (if compressed r
            then (if Ext (fname f) = ''.gz'' then BufioReader (GzipReader OsFile)
                  else BufioReader (GzipReader (BufioReader OsFile)))
            else BufioReader OsFile)
         \<and> gzip_layers (underlyingStream r) = (if compressed r then 1 else 0)
         \<and> (if compressed r then rd r = bufio_NewReader (b_rd (rd r))
            else Ext (fname f) \<noteq> ''.gz''
                 \<and> rd r = snd (snd (bufio_Peek 512 (bufio_NewReader (file_source f)))))"
  using assms
  by (auto simp: newReader_def newReader_gzip_def Let_def underlyingStream_def CheckfNoTrace_def
      gzip_NewReader_def bufio_NewReader_def file_source_def
      split: if_splits prod.splits sum.splits dest!: bufio_Peek_kind)


theorem underlying_stream_layers_witness:
  "(case newReader example_gunzip \<lparr>fname = ''data.rdf'', fdata = [abc_gzip]\<rparr> of
      Inl stop \<Rightarrow> False
    | Inr r \<Rightarrow>
        compressed r
        \<and> underlyingStream r = BufioReader (GzipReader (BufioReader OsFile))
        \<and> gzip_layers (underlyingStream r) = 1
        \<and> rd r = bufio_NewReader (b_rd (rd r)))"
proof -
  let ?f = "\<lparr>fname = ''data.rdf'', fdata = [abc_gzip]\<rparr>"
  have c: "case newReader example_gunzip ?f of Inl stop \<Rightarrow> False | Inr r \<Rightarrow> compressed r"
    by code_simp
  then obtain r where a: "newReader example_gunzip ?f = Inr r" and "compressed r"
    by (cases "newReader example_gunzip ?f") auto
  moreover have "Ext (fname ?f) \<noteq> ''.gz''" by code_simp
  ultimately show ?thesis
    using underlying_stream_layers [OF a] by simp
qed

text \<open>The other two configurations, on the same data.\<close>

lemma underlying_stream_layers_examples:
  "(case newReader example_gunzip \<lparr>fname = ''data.rdf.gz'', fdata = [abc_gzip]\<rparr> of
      Inl stop \<Rightarrow> False
    | Inr r \<Rightarrow> compressed r \<and> underlyingStream r = BufioReader (GzipReader OsFile))
   \<and> (case newReader example_gunzip abc_file of
      Inl stop \<Rightarrow> False
    | Inr r \<Rightarrow> \<not> compressed r \<and> underlyingStream r = BufioReader OsFile)"
  by code_simp

section \<open>The extension .gz\<close>

lemma Ext_gz: "Ext (p @ ''.gz'') = ''.gz''"
  by (simp add: Ext_def)

lemma Ext_scan_dot:
  "Ext_scan xs acc = e \<Longrightarrow> e \<noteq> [] \<Longrightarrow>
     \<exists>ys zs. xs = ys @ CHR ''.'' # zs \<and> e = CHR ''.'' # rev ys @ acc"
proof (induction xs arbitrary: acc)
  case Nil
  then show ?case by simp
next
  case (Cons c cs)
  show ?case
  proof (cases "c = CHR ''/'' \<or> c = CHR ''.''")
    case True
    with Cons.prems have "c = CHR ''.''" and "e = c # acc"
      by (auto split: if_splits)
    then show ?thesis by (intro exI [of _ "[]"] exI [of _ cs]) simp
  next
    case False
    with Cons.prems have "Ext_scan cs (c # acc) = e" by simp
    from Cons.IH [OF this Cons.prems(2)] obtain ys zs
      where "cs = ys @ CHR ''.'' # zs" "e = CHR ''.'' # rev ys @ c # acc" by auto
    then show ?thesis by (intro exI [of _ "c # ys"] exI [of _ zs]) simp
  qed
qed

lemma Ext_gz_iff: "Ext path = ''.gz'' \<longleftrightarrow> (\<exists>p. path = p @ ''.gz'')"
proof
  assume a: "Ext path = ''.gz''"
  then have "Ext_scan (rev path) [] = ''.gz''" by (simp add: Ext_def)
  from Ext_scan_dot [OF this] obtain ys zs
    where x: "rev path = ys @ CHR ''.'' # zs" and y: "''.gz'' = CHR ''.'' # rev ys @ []" by auto
  from y have "rev ys = ''gz''" by simp
  moreover from x have "path = rev zs @ CHR ''.'' # rev ys"
    by (metis rev_append rev.simps(2) rev_rev_ident append.assoc append_Cons append_Nil)
  ultimately show "\<exists>p. path = p @ ''.gz''" by auto
next
  assume "\<exists>p. path = p @ ''.gz''"
  then show "Ext path = ''.gz''" by (auto simp: Ext_gz)
qed

lemma take3_nth:
  "3 \<le> length raw \<Longrightarrow>
     take 3 raw = [a, b, c] \<longleftrightarrow> raw ! 0 = a \<and> raw ! 1 = b \<and> raw ! 2 = c"
proof -
  assume "3 \<le> length raw"
  then obtain x y z rest where "raw = x # y # z # rest"
    by (cases raw; cases "tl raw"; cases "tl (tl raw)") auto
  then show ?thesis by auto
qed

lemma gzip_NewReader_bad_header:
  assumes "io_bytes gzf = raw"
    and "length raw < 10 \<or> take 3 raw \<noteq> [0x1F, 0x8B, 0x08]"
  shows "gzip_NewReader gz gzf =
           Inl (if raw = [] then EOF else if length raw < 10 then ErrUnexpectedEOF else ErrHeader)"
proof (cases "length raw < 10")
  case True
  with assms(1) show ?thesis by (auto simp: gzip_NewReader_def Let_def)
next
  case False
  with assms(2) have "take 3 raw \<noteq> [0x1F, 0x8B, 0x08]" by simp
  moreover from False have "3 \<le> length raw" by simp
  ultimately have "\<not> (raw ! 0 = 0x1F \<and> raw ! 1 = 0x8B \<and> raw ! 2 = 0x08)"
    by (simp add: take3_nth)
  with False assms(1) show ?thesis
    by (auto simp: gzip_NewReader_def Let_def)
qed


text \<open>
  A gzip stream cut off right behind its header, under the name \<^verbatim>\<open>cut.rdf.gz\<close>: the first
  10 bytes of the stream of the three lines. \<^verbatim>\<open>gzip.NewReader\<close> reads the header and nothing
  more (no flag is set, so no optional field follows), and succeeds; the first \<^verbatim>\<open>Read\<close> of
  the decompressor then meets the end of the input where the compressed data should
  start, and returns \<^verbatim>\<open>io.ErrUnexpectedEOF\<close> without any data.
\<close>

definition cut_gzip :: "byte list" where
  "cut_gzip = [0x1F, 0x8B, 0x08, 0x00, 0x00, 0x00, 0x00, 0x00, 0x02, 0xFF]"

definition cut_gunzip :: gunzip where
  "cut_gunzip raw =
     (if raw = cut_gzip then Inr ([], ErrUnexpectedEOF, False) else example_gunzip raw)"

definition cut_gz_file :: osfile where
  "cut_gz_file = \<lparr>fname = ''cut.rdf.gz'', fdata = [cut_gzip]\<rparr>"

text \<open>
  The claim C7 as stated fails for content that is not valid gzip but starts like it: the
  file \<open>cut_gz_file\<close> is opened, with decompression, and the error only comes with the
  first read call.
\<close>

theorem gz_valid_header_opens_counterexample:
  "(case newReader cut_gunzip cut_gz_file of
      Inl stop \<Rightarrow> False
    | Inr r \<Rightarrow>
        Ext (fname cut_gz_file) = ''.gz'' \<and> concat (fdata cut_gz_file) = take 10 abc_gzip
        \<and> compressed r
        \<and> (case ReadSlice 0x0A r of (a1, e1, r1) \<Rightarrow>
             a1 = [] \<and> e1 = Some (IO ErrUnexpectedEOF))
        \<and> (case ReadRune r of (c, sz, e2, r2) \<Rightarrow>
             sz = 0 \<and> e2 = Some (IO ErrUnexpectedEOF)))"
  by code_simp

text \<open>
  Claim C7, amended. When the name of the file ends in \<^verbatim>\<open>.gz\<close>, \<^verbatim>\<open>newReader\<close> hands the file
  itself to the decompressor: nothing is peeked at or sniffed, and the outcome is that of
  \<^verbatim>\<open>gzip.NewReader\<close>, whose every error becomes the fatal report without trace; there is
  no fallback to reading the file as it is. Opening fails in this way whenever the content
  is shorter than the 10 bytes of the gzip header or does not start with the gzip
  signature \<^verbatim>\<open>1F 8B 08\<close>. For content that starts with such a header, \<^verbatim>\<open>gzip.NewReader\<close>
  decides (it reads the header only), and the reader returned reads what the decompressor
  delivers.
\<close>

theorem gz_extension_no_sniffing:
  assumes "fname f = p @ ''.gz''"
  shows "newReader gz f =
           (case gzip_NewReader gz (FileReader f) of
              Inl e \<Rightarrow> Inl (FatalNoTrace e)
            | Inr gzr \<Rightarrow>
                Inr \<lparr>rd = bufio_NewReader gzr, offset = 0, line = 0, compressed = True,
                     filename = fname f, prevOffset = 0, prevLine = 0\<rparr>)
         \<and> (length (concat (fdata f)) < 10 \<or> take 3 (concat (fdata f)) \<noteq> [0x1F, 0x8B, 0x08]
              \<longrightarrow> newReader gz f =
                    Inl (FatalNoTrace (if concat (fdata f) = [] then EOF
                                       else if length (concat (fdata f)) < 10 then ErrUnexpectedEOF
                                       else ErrHeader)))
         \<and> (10 \<le> length (concat (fdata f)) \<and> take 3 (concat (fdata f)) = [0x1F, 0x8B, 0x08]
              \<longrightarrow> newReader gz f =
                    (case gz (concat (fdata f)) of
                       Inl e \<Rightarrow> Inl (FatalNoTrace e)
                     | Inr (cs, fin, eg) \<Rightarrow>
                         Inr \<lparr>rd = bufio_NewReader
                                     \<lparr>chunks = cs, final = fin, eager = eg,
                                        kind = GzipReader OsFile\<rparr>,
                              offset = 0, line = 0, compressed = True,
                              filename = fname f, prevOffset = 0, prevLine = 0\<rparr>))"
proof -
  let ?raw = "concat (fdata f)"
  from assms have e: "Ext (fname f) = ''.gz''" by (simp add: Ext_gz)
  then have 1: "newReader gz f =
           (case gzip_NewReader gz (FileReader f) of
              Inl e \<Rightarrow> Inl (FatalNoTrace e)
            | Inr gzr \<Rightarrow>
                Inr \<lparr>rd = bufio_NewReader gzr, offset = 0, line = 0, compressed = True,
                     filename = fname f, prevOffset = 0, prevLine = 0\<rparr>)"
    by (simp add: newReader_def newReader_gzip_def CheckfNoTrace_def split: sum.splits)
  have 2: "length ?raw < 10 \<or> take 3 ?raw \<noteq> [0x1F, 0x8B, 0x08]
     \<Longrightarrow> gzip_NewReader gz (FileReader f) =
           Inl (if ?raw = [] then EOF
                else if length ?raw < 10 then ErrUnexpectedEOF else ErrHeader)"
    by (rule gzip_NewReader_bad_header) simp_all
  have 3: "gzip_NewReader gz (FileReader f) =
             (case gz ?raw of
                Inl e \<Rightarrow> Inl e
              | Inr (cs, fin, eg) \<Rightarrow>
                  Inr \<lparr>chunks = cs, final = fin, eager = eg, kind = GzipReader OsFile\<rparr>)"
    if "10 \<le> length ?raw" and "take 3 ?raw = [0x1F, 0x8B, 0x08]"
  proof -
    from that(1) have "3 \<le> length ?raw" by simp
    from take3_nth [OF this, of "0x1F" "0x8B" "0x08"] that(2)
    have "?raw ! 0 = 0x1F \<and> ?raw ! 1 = 0x8B \<and> ?raw ! 2 = 0x08"
      by blast
    with that(1) show ?thesis
      by (simp add: gzip_NewReader_def Let_def split: sum.splits prod.splits)
  qed
  have 4: "newReader gz f =
             (case gz ?raw of
                Inl e \<Rightarrow> Inl (FatalNoTrace e)
              | Inr (cs, fin, eg) \<Rightarrow>
                  Inr \<lparr>rd = bufio_NewReader
                              \<lparr>chunks = cs, final = fin, eager = eg, kind = GzipReader OsFile\<rparr>,
                       offset = 0, line = 0, compressed = True,
                       filename = fname f, prevOffset = 0, prevLine = 0\<rparr>)"
    if "10 \<le> length ?raw" and "take 3 ?raw = [0x1F, 0x8B, 0x08]"
    using 1 3 [OF that] by (simp split: sum.splits prod.splits)
  from 2 have 5: "length ?raw < 10 \<or> take 3 ?raw \<noteq> [0x1F, 0x8B, 0x08]
     \<Longrightarrow> newReader gz f =
           Inl (FatalNoTrace (if ?raw = [] then EOF
                              else if length ?raw < 10 then ErrUnexpectedEOF else ErrHeader))"
    using 1 by simp
  from 1 4 5 show ?thesis by blast
qed


text \<open>
  The three lines under the name \<^verbatim>\<open>data.gz\<close>: opening fails, where the same content under
  the name \<^verbatim>\<open>data.rdf\<close> is read as it is (\<open>newReader_abc_file\<close>). And the gzip stream of the
  three lines under the name \<^verbatim>\<open>data.rdf.gz\<close> is opened with what the decompressor delivers.
\<close>

theorem gz_extension_no_sniffing_witness:
  "fname \<lparr>fname = ''data.gz'', fdata = fdata abc_file\<rparr> = ''data'' @ ''.gz''
   \<and> newReader example_gunzip \<lparr>fname = ''data.gz'', fdata = fdata abc_file\<rparr>
       = Inl (FatalNoTrace ErrUnexpectedEOF)
   \<and> newReader example_gunzip abc_file = Inr abc_reader
   \<and> fname \<lparr>fname = ''data.rdf.gz'', fdata = [abc_gzip]\<rparr> = ''data.rdf'' @ ''.gz''
   \<and> newReader example_gunzip \<lparr>fname = ''data.rdf.gz'', fdata = [abc_gzip]\<rparr>
       = Inr \<lparr>rd = bufio_NewReader
                    \<lparr>chunks = [[0x61, 0x0A, 0x62, 0x62, 0x0A, 0x63, 0x63, 0x63]],
                       final = EOF, eager = True, kind = GzipReader OsFile\<rparr>,
              offset = 0, line = 0, compressed = True,
              filename = ''data.rdf.gz'', prevOffset = 0, prevLine = 0\<rparr>"
proof -
  let ?f = "\<lparr>fname = ''data.gz'', fdata = fdata abc_file\<rparr>"
  let ?g = "\<lparr>fname = ''data.rdf.gz'', fdata = [abc_gzip]\<rparr>"
  have n: "fname ?f = ''data'' @ ''.gz''" by simp
  have l: "length (concat (fdata ?f)) < 10" "concat (fdata ?f) \<noteq> []"
    by (simp_all add: abc_file_def)
  note short = gz_extension_no_sniffing [OF n, where gz = example_gunzip,
      THEN conjunct2, THEN conjunct1]
  with l have 1: "newReader example_gunzip ?f = Inl (FatalNoTrace ErrUnexpectedEOF)"
    by simp
  have m: "fname ?g = ''data.rdf'' @ ''.gz''" by simp
  have h: "10 \<le> length (concat (fdata ?g))" "take 3 (concat (fdata ?g)) = [0x1F, 0x8B, 0x08]"
    "example_gunzip (concat (fdata ?g))
       = Inr ([[0x61, 0x0A, 0x62, 0x62, 0x0A, 0x63, 0x63, 0x63]], EOF, True)"
    by (simp_all add: abc_gzip_def example_gunzip_def)
  note header = gz_extension_no_sniffing [OF m, where gz = example_gunzip,
      THEN conjunct2, THEN conjunct2]
  with h have 2: "newReader example_gunzip ?g
       = Inr \<lparr>rd = bufio_NewReader
                    \<lparr>chunks = [[0x61, 0x0A, 0x62, 0x62, 0x0A, 0x63, 0x63, 0x63]],
                       final = EOF, eager = True, kind = GzipReader OsFile\<rparr>,
              offset = 0, line = 0, compressed = True,
              filename = ''data.rdf.gz'', prevOffset = 0, prevLine = 0\<rparr>"
    by simp
  from 1 2 n m newReader_abc_file [of example_gunzip] show ?thesis by simp
qed


section \<open>The bytes still to be delivered\<close>

text \<open>
  \<open>pending b\<close> is the stream as the caller of the buffered reader sees it: the bytes
  buffered but not yet read, followed by what the underlying reader has still to deliver.
  \<open>bufio_inv\<close> is the invariant of the buffered reader over a source that never returns
  an empty read without an error: the read position lies in the filled part, the filled
  part fits the buffer, and an error is pending only once the source is exhausted. It
  holds for a new reader and is kept by every operation (\<open>newReader_plain\<close>,
  \<open>bufio_NewReader_inv\<close>, \<open>call_read_inv\<close>, \<open>UnreadRune_inv\<close>).
\<close>

definition pending :: "bufio \<Rightarrow> byte list" where
  "pending b = drop (b_r b) (b_buf b) @ concat (chunks (b_rd b))"

definition bufio_inv :: "bufio \<Rightarrow> bool" where
  "bufio_inv b =
     (b_r b \<le> length (b_buf b) \<and> length (b_buf b) \<le> defaultBufSize
      \<and> [] \<notin> set (chunks (b_rd b))
      \<and> (case b_err b of
            None \<Rightarrow> True
          | Some e \<Rightarrow> e = IO (final (b_rd b)) \<and> chunks (b_rd b) = []))"

lemma src_Read_inv:
  assumes "[] \<notin> set (chunks s)" and "0 < k" and "src_Read s k = (p, e, s')"
  shows "p @ concat (chunks s') = concat (chunks s) \<and> length p \<le> k
         \<and> [] \<notin> set (chunks s') \<and> final s' = final s \<and> eager s' = eager s
         \<and> (case e of
               None \<Rightarrow> p \<noteq> []
             | Some x \<Rightarrow> x = IO (final s) \<and> chunks s' = [])"
  using assms
  by (cases "chunks s") (auto simp: src_Read_def Let_def min_def split: if_splits)

lemma fill_loop_inv:
  assumes "bufio_inv b" and "b_err b = None" and "length (b_buf b) < defaultBufSize"
  shows "bufio_inv (fill_loop (Suc i) b) \<and> pending (fill_loop (Suc i) b) = pending b
         \<and> b_r (fill_loop (Suc i) b) = b_r b
         \<and> take (length (b_buf b)) (b_buf (fill_loop (Suc i) b)) = b_buf b
         \<and> length (b_buf b) \<le> length (b_buf (fill_loop (Suc i) b))
         \<and> final (b_rd (fill_loop (Suc i) b)) = final (b_rd b)
         \<and> eager (b_rd (fill_loop (Suc i) b)) = eager (b_rd b)"
proof -
  obtain p e s' where rd: "src_Read (b_rd b) (defaultBufSize - length (b_buf b)) = (p, e, s')"
    by (cases "src_Read (b_rd b) (defaultBufSize - length (b_buf b))") auto
  from assms have "[] \<notin> set (chunks (b_rd b))" "0 < defaultBufSize - length (b_buf b)"
    by (simp_all add: bufio_inv_def)
  note s = src_Read_inv [OF this rd]
  show ?thesis
  proof (cases e)
    case None
    with s have "p \<noteq> []" by simp
    with None rd s assms show ?thesis
      by (auto simp: Let_def bufio_inv_def pending_def)
  next
    case (Some x)
    with rd s assms show ?thesis
      by (auto simp: Let_def bufio_inv_def pending_def)
  qed
qed

lemma fill_inv:
  assumes "bufio_inv b" and "b_err b = None" and "Buffered b < defaultBufSize"
  shows "bufio_inv (fill b) \<and> pending (fill b) = pending b \<and> b_r (fill b) = 0
         \<and> take (Buffered b) (b_buf (fill b)) = drop (b_r b) (b_buf b)
         \<and> Buffered b \<le> Buffered (fill b)
         \<and> final (b_rd (fill b)) = final (b_rd b)
         \<and> eager (b_rd (fill b)) = eager (b_rd b)"
proof -
  let ?b0 = "if b_r b > 0 then b\<lparr>b_buf := drop (b_r b) (b_buf b), b_r := 0\<rparr> else b"
  have b0: "bufio_inv ?b0" "b_err ?b0 = None" "length (b_buf ?b0) < defaultBufSize"
    "pending ?b0 = pending b" "b_r ?b0 = 0" "b_buf ?b0 = drop (b_r b) (b_buf b)"
    "b_rd ?b0 = b_rd b"
    using assms by (auto simp: bufio_inv_def pending_def Buffered_def)
  have f: "fill b = fill_loop (Suc 99) ?b0"
    by (simp add: fill_def maxConsecutiveEmptyReads_def)
  from fill_loop_inv [OF b0(1-3), of 99] b0(4-7) show ?thesis
    unfolding f by (simp add: Buffered_def)
qed


lemma IndexByte_None: "IndexByte xs d = None \<longleftrightarrow> d \<notin> set xs"
  by (induction xs) auto

lemma IndexByte_Some:
  "IndexByte xs d = Some i \<Longrightarrow> i < length xs \<and> xs ! i = d \<and> d \<notin> set (take i xs)"
proof (induction xs arbitrary: i)
  case Nil
  then show ?case by simp
next
  case (Cons x xs)
  then show ?case by (cases i) (auto split: if_splits)
qed

lemma IndexByte_append:
  "IndexByte (xs @ ys) d =
     (case IndexByte xs d of
        Some i \<Rightarrow> Some i
      | None \<Rightarrow> (case IndexByte ys d of None \<Rightarrow> None | Some j \<Rightarrow> Some (length xs + j)))"
  by (induction xs) (auto split: option.splits)

lemma IndexByte_take:
  "IndexByte xs d = Some i \<Longrightarrow> i < n \<Longrightarrow> IndexByte (take n xs) d = Some i"
proof (induction xs arbitrary: i n)
  case Nil
  then show ?case by simp
next
  case (Cons x xs)
  then show ?case by (cases n) (auto split: if_splits)
qed

text \<open>What one call of ReadSlice does, in terms of the bytes still to be delivered.\<close>

lemma ReadSlice_loop_pending:
  assumes "bufio_inv b" and "s \<le> Buffered b" and "delim \<notin> set (take s (drop (b_r b) (b_buf b)))"
    and "ReadSlice_loop delim s b = (ln, e, b')"
  shows "bufio_inv b' \<and> ln @ pending b' = pending b \<and> length ln \<le> defaultBufSize
         \<and> final (b_rd b') = final (b_rd b) \<and> eager (b_rd b') = eager (b_rd b)
         \<and> (case e of
               None \<Rightarrow> ln \<noteq> [] \<and> IndexByte (pending b) delim = Some (length ln - 1)
             | Some x \<Rightarrow>
                 delim \<notin> set ln
                 \<and> (if x = ErrBufferFull then length ln = defaultBufSize
                    else x = IO (final (b_rd b)) \<and> pending b' = []))"
  using assms
proof (induction delim s b rule: ReadSlice_loop.induct)
  case (1 delim s b)
  let ?q = "drop (b_r b) (b_buf b)"
  have split: "?q = take s ?q @ drop (b_r b + s) (b_buf b)"
    by (metis append_take_drop_id drop_drop add.commute)
  show ?case
  proof (cases "IndexByte (drop (b_r b + s) (b_buf b)) delim")
    case (Some i)
    note i = IndexByte_Some [OF Some]
    from Some "1.prems"(4)
    have res: "ln = take (i + s + 1) ?q" "e = None" "b' = b\<lparr>b_r := b_r b + (i + s) + 1\<rparr>"
      by (auto simp: ReadSlice_loop.simps [of delim s b])
    from i have "i < length (b_buf b) - (b_r b + s)" by simp
    then have len: "b_r b + s + i < length (b_buf b)" by arith
    have "IndexByte (take s ?q) delim = None"
      using "1.prems"(3) by (simp add: IndexByte_None)
    moreover have "length (take s ?q) = s"
      using "1.prems"(2) by (simp add: Buffered_def)
    ultimately have "IndexByte ?q delim = Some (s + i)"
      using Some by (subst split) (simp add: IndexByte_append)
    then have ix: "IndexByte (pending b) delim = Some (s + i)"
      by (simp add: pending_def IndexByte_append)
    have l: "length ln = i + s + 1" using len res by simp
    have "ln @ drop (b_r b + (i + s) + 1) (b_buf b) = ?q"
      unfolding res by (metis add.assoc add.commute append_take_drop_id drop_drop)
    then have "ln @ pending b' = pending b"
      by (simp add: pending_def res)
    with "1.prems"(1) l len ix res show ?thesis
      by (auto simp: bufio_inv_def add.commute split: option.splits)
  next
    case None
    then have nodelim: "delim \<notin> set ?q"
      using "1.prems"(3) by (subst split) (simp add: IndexByte_None)
    show ?thesis
    proof (cases "b_err b \<noteq> None")
      case True
      with None "1.prems"(4)
      have res: "ln = ?q" "e = b_err b" "b' = b\<lparr>b_r := length (b_buf b), b_err := None\<rparr>"
        by (auto simp: ReadSlice_loop.simps [of delim s b])
      with True "1.prems"(1) nodelim show ?thesis
        by (auto simp: bufio_inv_def pending_def split: option.splits)
    next
      case noerr: False
      show ?thesis
      proof (cases "Buffered b \<ge> defaultBufSize")
        case True
        with None noerr "1.prems"(4)
        have res: "ln = b_buf b" "e = Some ErrBufferFull" "b' = b\<lparr>b_r := length (b_buf b)\<rparr>"
          by (auto simp: ReadSlice_loop.simps [of delim s b])
        from True "1.prems"(1) have "b_r b = 0" "length (b_buf b) = defaultBufSize"
          by (auto simp: bufio_inv_def Buffered_def)
        with res "1.prems"(1) nodelim noerr show ?thesis
          by (auto simp: bufio_inv_def pending_def split: option.splits)
      next
        case False
        with None noerr "1.prems"(4)
        have rec: "ReadSlice_loop delim (length (b_buf b) - b_r b) (fill b) = (ln, e, b')"
          by (simp add: ReadSlice_loop.simps [of delim s b])
        from noerr False "1.prems"(1) have f: "bufio_inv (fill b)" "pending (fill b) = pending b"
          "b_r (fill b) = 0" "take (Buffered b) (b_buf (fill b)) = ?q"
          "Buffered b \<le> Buffered (fill b)" "final (b_rd (fill b)) = final (b_rd b)"
          "eager (b_rd (fill b)) = eager (b_rd b)"
          using fill_inv [of b] by simp_all
        have a: "length (b_buf b) - b_r b \<le> Buffered (fill b)"
          using f(5) by (simp add: Buffered_def)
        have b: "delim \<notin> set (take (length (b_buf b) - b_r b)
                     (drop (b_r (fill b)) (b_buf (fill b))))"
          using f(3,4) nodelim by (simp add: Buffered_def)
        from "1.IH" [OF None noerr False f(1) a b rec] f show ?thesis
          by (auto split: option.splits)
      qed
    qed
  qed
qed

lemma pending_fields [simp]:
  "pending (b\<lparr>b_lastByte := x\<rparr>) = pending b"
  "pending (b\<lparr>b_lastRuneSize := y\<rparr>) = pending b"
  "pending (b\<lparr>b_err := z\<rparr>) = pending b"
  by (simp_all add: pending_def)

lemma bufio_inv_fields [simp]:
  "bufio_inv (b\<lparr>b_lastByte := x\<rparr>) = bufio_inv b"
  "bufio_inv (b\<lparr>b_lastRuneSize := y\<rparr>) = bufio_inv b"
  by (simp_all add: bufio_inv_def cong: option.case_cong)

lemma bufio_inv_clear_err: "bufio_inv b \<Longrightarrow> bufio_inv (b\<lparr>b_err := None\<rparr>)"
  by (simp add: bufio_inv_def)


subsection \<open>Decoding a rune from a prefix of the stream\<close>

lemma DecodeRune_take4: "DecodeRune (take 4 q) = DecodeRune q"
proof (cases q)
  case Nil
  then show ?thesis by simp
next
  case (Cons p0 p)
  have m: "min (Suc (length p)) 4 < n \<longleftrightarrow> Suc (length p) < n" if "n \<le> 4" for n
    using that by auto
  have n1: "length q < 2 \<or> take 4 q ! 1 = q ! 1" by auto
  have n2: "length q < 3 \<or> take 4 q ! 2 = q ! 2" by auto
  have n3: "length q < 4 \<or> take 4 q ! 3 = q ! 3" by auto
  have t: "take 4 q = p0 # take 3 p" using Cons by (simp add: take_Cons')
  from first_cases [of p0] n1 n2 n3 show ?thesis
    unfolding DecodeRune_def Cons t [unfolded Cons]
    by (auto simp: Let_def as_def xx_def s1_def s2_def s3_def s4_def s5_def
      s6_def s7_def min_def split: prod.splits)
qed


lemma list_upto3:
  obtains "p = []" | a where "p = [a]" | a b where "p = [a, b]"
  | a b c r where "p = a # b # c # r"
proof (cases p)
  case Nil
  then show ?thesis using that by simp
next
  case c1: (Cons a p1)
  show ?thesis
  proof (cases p1)
    case Nil
    with c1 show ?thesis using that by simp
  next
    case c2: (Cons b p2)
    show ?thesis
    proof (cases p2)
      case Nil
      with c1 c2 show ?thesis using that by simp
    next
      case (Cons c r)
      with c1 c2 show ?thesis using that by simp
    qed
  qed
qed

lemma DecodeRune_FullRune_multi:
  assumes x: "\<not> first p0 \<ge> as" "unat (first p0 AND 7) = sz"
    "acceptRanges (drop_bit 4 (first p0)) = (lo, hi)" "sz = 2 \<or> sz = 3 \<or> sz = 4"
    and full: "FullRune (p0 # p)"
  shows "DecodeRune ((p0 # p) @ t) = DecodeRune (p0 # p)"
proof (cases p rule: list_upto3)
  case 1
  with x full show ?thesis
    by (auto simp: FullRune_def Let_def)
next
  case (2 a)
  with x full show ?thesis
    by (auto simp: FullRune_def DecodeRune_def Let_def numeral_2_eq_2 numeral_3_eq_3
        split: if_splits)
next
  case (3 a b)
  with x full show ?thesis
    by (auto simp: FullRune_def DecodeRune_def Let_def numeral_2_eq_2 numeral_3_eq_3
        split: if_splits)
next
  case (4 a b c r)
  with x show ?thesis
    by (auto simp: DecodeRune_def Let_def)
qed

lemma first_multi:
  "first p0 = s1 \<or> first p0 = s2 \<or> first p0 = s3 \<or> first p0 = s4 \<or> first p0 = s5
     \<or> first p0 = s6 \<or> first p0 = s7 \<Longrightarrow>
   \<not> first p0 \<ge> as
   \<and> (unat (first p0 AND 7) = 2 \<or> unat (first p0 AND 7) = 3 \<or> unat (first p0 AND 7) = 4)"
  by (auto simp: as_def s1_def s2_def s3_def s4_def s5_def s6_def s7_def)

lemma DecodeRune_FullRune:
  assumes "FullRune q"
  shows "DecodeRune (q @ t) = DecodeRune q"
proof (cases q)
  case Nil
  with assms show ?thesis by (simp add: FullRune_def)
next
  case (Cons p0 p)
  show ?thesis
  proof (cases "first p0 = as \<or> first p0 = xx")
    case True
    then have "first p0 \<ge> as" by (auto simp: as_def xx_def)
    then show ?thesis by (simp add: Cons DecodeRune_def Let_def)
  next
    case False
    with first_cases [of p0]
    have "first p0 = s1 \<or> first p0 = s2 \<or> first p0 = s3 \<or> first p0 = s4 \<or> first p0 = s5
       \<or> first p0 = s6 \<or> first p0 = s7" by blast
    note m = first_multi [OF this]
    obtain lo hi where r: "acceptRanges (drop_bit 4 (first p0)) = (lo, hi)"
      by (cases "acceptRanges (drop_bit 4 (first p0))") auto
    from m have "\<not> first p0 \<ge> as" by simp
    from DecodeRune_FullRune_multi [OF this refl r _ assms [unfolded Cons]] m
    show ?thesis by (simp add: Cons)
  qed
qed

lemma DecodeRune_prefix:
  assumes "4 \<le> length q \<or> FullRune q"
  shows "DecodeRune (q @ t) = DecodeRune q"
proof (cases "FullRune q")
  case True
  then show ?thesis by (rule DecodeRune_FullRune)
next
  case False
  with assms have "4 \<le> length q" by simp
  then have "take 4 (q @ t) = take 4 q" by simp
  then show ?thesis by (metis DecodeRune_take4)
qed

subsection \<open>The read calls as functions of the stream\<close>

text \<open>
  What \<^verbatim>\<open>ReadString\<close> and \<^verbatim>\<open>ReadRune\<close> return, and what they leave, in terms of the bytes
  still to be delivered and the error that ends them: the line up to the first delimiter,
  or everything with the final error; the first rune, or the final error at the end.
\<close>

definition stream_ReadString :: "byte \<Rightarrow> ioerr \<Rightarrow> byte list \<Rightarrow> byte list \<times> error option \<times> byte list" where
  "stream_ReadString delim fin s =
     (case IndexByte s delim of
        Some i \<Rightarrow> (take (i + 1) s, None, drop (i + 1) s)
      | None \<Rightarrow> (s, Some (IO fin), []))"

definition stream_ReadRune :: "ioerr \<Rightarrow> byte list \<Rightarrow> rune \<times> int \<times> error option \<times> byte list" where
  "stream_ReadRune fin s =
     (case s of
        [] \<Rightarrow> (0, 0, Some (IO fin), [])
      | p0 # p \<Rightarrow>
          let (r, size) = (if ucast p0 \<ge> RuneSelf then DecodeRune s else (ucast p0, 1))
          in (r, int size, None, drop size s))"

lemma bufio_ReadSlice_pending:
  assumes "bufio_inv b" and "bufio_ReadSlice delim b = (ln, e, b')"
  shows "bufio_inv b' \<and> ln @ pending b' = pending b \<and> length ln \<le> defaultBufSize
         \<and> final (b_rd b') = final (b_rd b) \<and> eager (b_rd b') = eager (b_rd b)
         \<and> (case e of
               None \<Rightarrow> ln \<noteq> [] \<and> IndexByte (pending b) delim = Some (length ln - 1)
             | Some x \<Rightarrow>
                 delim \<notin> set ln
                 \<and> (if x = ErrBufferFull then length ln = defaultBufSize
                    else x = IO (final (b_rd b)) \<and> pending b' = []))"
proof -
  obtain b1 where l: "ReadSlice_loop delim 0 b = (ln, e, b1)"
    and b': "b' = (if ln \<noteq> [] then b1\<lparr>b_lastByte := uint (last ln), b_lastRuneSize := -1\<rparr> else b1)"
    using assms(2) by (auto simp: bufio_ReadSlice_def Let_def split: prod.splits)
  have "bufio_inv b' = bufio_inv b1" "pending b' = pending b1" "b_rd b' = b_rd b1"
    by (simp_all add: b' bufio_inv_def pending_def cong: option.case_cong)
  with ReadSlice_loop_pending [OF assms(1) _ _ l] show ?thesis
    by (auto split: option.splits)
qed

lemma stream_ReadString_None:
  assumes "ln @ rest = s" and "ln \<noteq> []" and "IndexByte s delim = Some (length ln - 1)"
  shows "stream_ReadString delim fin s = (ln, None, rest)"
proof -
  from assms(2) have "length ln - 1 + 1 = length ln" by (cases ln) auto
  with assms show ?thesis by (auto simp: stream_ReadString_def)
qed

lemma stream_ReadString_Some:
  assumes "delim \<notin> set s"
  shows "stream_ReadString delim fin s = (s, Some (IO fin), [])"
  using assms by (simp add: stream_ReadString_def IndexByte_None [THEN iffD2])

text \<open>ReadSlice agrees with the stream view unless it stops at a full buffer.\<close>

lemma bufio_ReadSlice_stream:
  assumes "bufio_inv b" and "bufio_ReadSlice delim b = (ln, e, b')"
    and "e \<noteq> Some ErrBufferFull"
  shows "bufio_inv b' \<and> final (b_rd b') = final (b_rd b) \<and> eager (b_rd b') = eager (b_rd b)
         \<and> (ln, e, pending b') = stream_ReadString delim (final (b_rd b)) (pending b)"
proof -
  note p = bufio_ReadSlice_pending [OF assms(1,2)]
  show ?thesis
  proof (cases e)
    case None
    with p have "ln @ pending b' = pending b" "ln \<noteq> []"
      "IndexByte (pending b) delim = Some (length ln - 1)" by simp_all
    from stream_ReadString_None [OF this] p None show ?thesis by simp
  next
    case (Some x)
    with p assms(3) have "delim \<notin> set ln" "pending b' = []" "x = IO (final (b_rd b))"
      "ln @ pending b' = pending b"
      by (auto split: if_splits)
    then have "delim \<notin> set (pending b)" "ln = pending b" by auto
    from stream_ReadString_Some [OF this(1)] this(2) p Some \<open>pending b' = []\<close>
      \<open>x = IO (final (b_rd b))\<close>
    show ?thesis by simp
  qed
qed

lemma bufio_ReadSlice_not_full:
  assumes "bufio_inv b" and "bufio_ReadSlice delim b = (ln, e, b')"
    and "length (pending b) < defaultBufSize"
  shows "e \<noteq> Some ErrBufferFull"
proof
  assume "e = Some ErrBufferFull"
  with bufio_ReadSlice_pending [OF assms(1,2)]
  have "length ln = defaultBufSize" "ln @ pending b' = pending b" by simp_all
  then have "defaultBufSize \<le> length (pending b)" by (metis length_append le_add1)
  with assms(3) show False by simp
qed

lemma collectFragments_pending:
  assumes "bufio_inv b" and "collectFragments delim full b = (full', frag, e, b')"
  shows "\<exists>more. full' = full @ more \<and> bufio_inv b'
           \<and> concat more @ frag @ pending b' = pending b
           \<and> final (b_rd b') = final (b_rd b) \<and> eager (b_rd b') = eager (b_rd b)
           \<and> (case e of
                 None \<Rightarrow> concat more @ frag \<noteq> []
                   \<and> IndexByte (pending b) delim = Some (length (concat more @ frag) - 1)
               | Some x \<Rightarrow> x = IO (final (b_rd b)) \<and> pending b' = []
                   \<and> delim \<notin> set (concat more @ frag))"
  using assms
proof (induction delim full b rule: collectFragments.induct)
  case (1 delim fullBuffers b)
  obtain frag0 e0 b0 where rs: "bufio_ReadSlice delim b = (frag0, e0, b0)"
    by (cases "bufio_ReadSlice delim b") auto
  note p = bufio_ReadSlice_pending [OF "1.prems"(1) rs]
  show ?case
  proof (cases "e0 = Some ErrBufferFull")
    case True
    with rs "1.prems"(2)
    have rec: "collectFragments delim (fullBuffers @ [frag0]) b0 = (full', frag, e, b')"
      by (simp add: collectFragments.simps [of delim fullBuffers b])
    from p have inv0: "bufio_inv b0" by simp
    from "1.IH" [OF rs [symmetric] refl _ _ inv0 rec] True
    obtain more where m: "full' = (fullBuffers @ [frag0]) @ more" "bufio_inv b'"
      "concat more @ frag @ pending b' = pending b0"
      "final (b_rd b') = final (b_rd b0)" "eager (b_rd b') = eager (b_rd b0)"
      "(case e of
          None \<Rightarrow> concat more @ frag \<noteq> []
            \<and> IndexByte (pending b0) delim = Some (length (concat more @ frag) - 1)
        | Some x \<Rightarrow> x = IO (final (b_rd b0)) \<and> pending b' = []
            \<and> delim \<notin> set (concat more @ frag))"
      by auto
    from p True have f0: "delim \<notin> set frag0" "frag0 @ pending b0 = pending b"
      "final (b_rd b0) = final (b_rd b)" "eager (b_rd b0) = eager (b_rd b)"
      by simp_all
    have ix: "IndexByte (pending b0) delim = Some k \<Longrightarrow>
              IndexByte (pending b) delim = Some (length frag0 + k)" for k
      using f0(1) unfolding f0(2) [symmetric]
      by (simp add: IndexByte_append IndexByte_None [THEN iffD2])
    have "concat (frag0 # more) @ frag @ pending b' = pending b"
      using m(3) f0(2) by simp
    moreover have "case e of
          None \<Rightarrow> concat (frag0 # more) @ frag \<noteq> []
            \<and> IndexByte (pending b) delim = Some (length (concat (frag0 # more) @ frag) - 1)
        | Some x \<Rightarrow> x = IO (final (b_rd b)) \<and> pending b' = []
            \<and> delim \<notin> set (concat (frag0 # more) @ frag)"
    proof (cases e)
      case None
      with m(6) have ne: "concat more @ frag \<noteq> []"
        and "IndexByte (pending b0) delim = Some (length (concat more @ frag) - 1)"
        by simp_all
      from ix [OF this(2)] ne have "IndexByte (pending b) delim
          = Some (length (concat (frag0 # more) @ frag) - 1)"
        by (cases "concat more @ frag") (auto simp del: concat_eq_Nil_conv)
      with None ne show ?thesis by simp
    next
      case (Some x)
      with m(6) f0 show ?thesis by auto
    qed
    ultimately show ?thesis
      using m(1,2,4,5) f0(3,4) by (intro exI [of _ "frag0 # more"]) simp
  next
    case False
    with rs "1.prems"(2) have eq: "full' = fullBuffers" "frag = frag0" "b' = b0" "e = e0"
      by (auto simp: collectFragments.simps [of delim fullBuffers b] split: if_splits)
    with p False show ?thesis
      by (intro exI [of _ "[]"]) (auto split: option.splits if_splits)
  qed
qed

lemma bufio_ReadString_stream:
  assumes "bufio_inv b" and "bufio_ReadString delim b = (str, e, b')"
  shows "bufio_inv b' \<and> final (b_rd b') = final (b_rd b) \<and> eager (b_rd b') = eager (b_rd b)
         \<and> (str, e, pending b') = stream_ReadString delim (final (b_rd b)) (pending b)"
proof -
  obtain full frag where c: "collectFragments delim [] b = (full, frag, e, b')"
    and str: "str = concat full @ frag"
    using assms(2) by (auto simp: bufio_ReadString_def split: prod.splits)
  from collectFragments_pending [OF assms(1) c]
  have p: "bufio_inv b'" "str @ pending b' = pending b"
    "final (b_rd b') = final (b_rd b)" "eager (b_rd b') = eager (b_rd b)"
    "(case e of
        None \<Rightarrow> str \<noteq> [] \<and> IndexByte (pending b) delim = Some (length str - 1)
      | Some x \<Rightarrow> x = IO (final (b_rd b)) \<and> pending b' = [] \<and> delim \<notin> set str)"
    by (auto simp: str cong: option.case_cong)
  show ?thesis
  proof (cases e)
    case None
    with p have "str \<noteq> []" "IndexByte (pending b) delim = Some (length str - 1)" by simp_all
    from stream_ReadString_None [OF p(2) this] p None show ?thesis by simp
  next
    case (Some x)
    with p have x: "delim \<notin> set str" "pending b' = []" "x = IO (final (b_rd b))" by simp_all
    with p(2) have "delim \<notin> set (pending b)" "str = pending b" by auto
    from stream_ReadString_Some [OF this(1)] this(2) p Some x show ?thesis by simp
  qed
qed

lemma ReadRune_fill_inv:
  "bufio_inv b \<Longrightarrow>
     bufio_inv (ReadRune_fill b) \<and> pending (ReadRune_fill b) = pending b
     \<and> final (b_rd (ReadRune_fill b)) = final (b_rd b)
     \<and> eager (b_rd (ReadRune_fill b)) = eager (b_rd b)"
proof (induction b rule: ReadRune_fill.induct)
  case (1 b)
  show ?case
  proof (cases "ReadRune_more b")
    case True
    then have "b_err b = None" "Buffered b < defaultBufSize"
      by (simp_all add: ReadRune_more_def Buffered_def)
    from fill_inv [OF "1.prems" this] "1.IH" [OF True] True show ?thesis
      by (simp add: ReadRune_fill.simps [of b])
  next
    case False
    with "1.prems" show ?thesis by (simp add: ReadRune_fill.simps [of b])
  qed
qed

lemma bufio_ReadRune_stream:
  assumes "bufio_inv b" and "bufio_ReadRune b = (c, sz, e, b')"
  shows "bufio_inv b' \<and> final (b_rd b') = final (b_rd b) \<and> eager (b_rd b') = eager (b_rd b)
         \<and> (c, sz, e, pending b') = stream_ReadRune (final (b_rd b)) (pending b)"
proof -
  let ?b = "ReadRune_fill b"
  note f = ReadRune_fill_inv [OF assms(1)]
  have ex: "\<not> ReadRune_more ?b" by (rule ReadRune_fill_exit)
  let ?q = "drop (b_r ?b) (b_buf ?b)"
  let ?rest = "concat (chunks (b_rd ?b))"
  have pq: "pending b = ?q @ ?rest" using f by (simp add: pending_def)
  show ?thesis
  proof (cases ?q)
    case Nil
    with ex have "b_err ?b \<noteq> None"
      by (auto simp: ReadRune_more_def FullRune_def UTFMax_def defaultBufSize_def)
    then obtain x where x: "b_err ?b = Some x" by auto
    with f have x': "x = IO (final (b_rd b))" "chunks (b_rd ?b) = []"
      by (auto simp: bufio_inv_def)
    with Nil pq have "pending b = []" by simp
    moreover from Nil x assms(2)
    have "c = 0" "sz = 0" "e = Some x" "b' = ?b\<lparr>b_lastRuneSize := -1, b_err := None\<rparr>"
      by (auto simp: bufio_ReadRune_def Let_def)
    moreover have "pending b' = pending ?b" "bufio_inv b'" "b_rd b' = b_rd ?b"
      using \<open>b' = ?b\<lparr>b_lastRuneSize := -1, b_err := None\<rparr>\<close> f
      by (simp_all add: bufio_inv_clear_err)
    ultimately show ?thesis
      using f x' by (simp add: stream_ReadRune_def)
  next
    case (Cons p0 p)
    obtain c' n
      where d: "(if ucast p0 \<ge> RuneSelf then DecodeRune (p0 # p) else (ucast p0, 1)) = (c', n)"
      by (cases "(if ucast p0 \<ge> RuneSelf then DecodeRune (p0 # p) else (ucast p0, 1 :: nat))")
        auto
    then have n: "1 \<le> n" "n \<le> length ?q"
      using DecodeRune_size [of p0 p c' n] Cons by (auto split: if_splits)
    from Cons d assms(2)
    have res: "c = c'" "sz = int n" "e = None"
      "b' = ?b\<lparr>b_lastRuneSize := -1, b_r := b_r ?b + n,
                b_lastByte := uint (b_buf ?b ! (b_r ?b + n - 1)),
                b_lastRuneSize := int n\<rparr>"
      by (auto simp: bufio_ReadRune_def Let_def)
    have "4 \<le> length ?q \<or> FullRune ?q \<or> ?rest = []"
    proof (cases "b_err ?b")
      case None
      with ex show ?thesis
        by (auto simp: ReadRune_more_def UTFMax_def defaultBufSize_def)
    next
      case (Some x)
      with f show ?thesis by (auto simp: bufio_inv_def)
    qed
    then have dec: "DecodeRune (?q @ ?rest) = DecodeRune ?q"
    proof (cases "?rest = []")
      case True
      then show ?thesis by (simp only: append_Nil2)
    next
      case False
      assume "4 \<le> length ?q \<or> FullRune ?q \<or> ?rest = []"
      with False have "4 \<le> length ?q \<or> FullRune ?q" by blast
      then show ?thesis by (rule DecodeRune_prefix)
    qed
    have "stream_ReadRune (final (b_rd b)) (pending b) = (c', int n, None, drop n (pending b))"
      using d dec unfolding pq Cons
      by (auto simp: stream_ReadRune_def Let_def split: if_splits)
    moreover have "pending b' = drop n (pending b)"
      using n unfolding pq by (simp add: pending_def res add.commute)
    moreover have "bufio_inv b'"
      using f n by (auto simp: res bufio_inv_def split: option.splits)
    ultimately show ?thesis using res f by simp
  qed
qed








subsection \<open>Two readers over the same stream\<close>











lemma UnreadRune_inv:
  assumes "bufio_inv (rd r)" and "UnreadRune r = (e, r')"
  shows "bufio_inv (rd r') \<and> final (b_rd (rd r')) = final (b_rd (rd r))"
proof -
  from UnreadRune_fields [OF assms(2)] have "bufio_UnreadRune (rd r) = (e, rd r')" by blast
  from bufio_UnreadRune_result [OF this]
  have "rd r' = (rd r)\<lparr>b_r := b_r (rd r) - nat (b_lastRuneSize (rd r)),
                         b_lastByte := -1, b_lastRuneSize := -1\<rparr> \<or> rd r' = rd r"
    by (cases "e = None") simp_all
  with assms(1) show ?thesis
    by (auto simp: bufio_inv_def cong: option.case_cong)
qed

section \<open>A stream that ends without a trailing delimiter\<close>

text \<open>
  A file of 4096 letters \<^verbatim>\<open>a\<close>, as large as the buffer, and the reader \<^verbatim>\<open>newReader\<close>
  returns for it: the peek has read the whole file into the buffer, and the end of the
  file has not been seen yet.
\<close>

definition big_file :: osfile where
  "big_file = \<lparr>fname = ''big.rdf'', fdata = [replicate 4096 0x61]\<rparr>"

definition big_reader :: Reader where
  "big_reader =
     \<lparr>rd = \<lparr>b_buf = replicate 4096 0x61,
             b_rd = \<lparr>chunks = [], final = EOF, eager = False, kind = OsFile\<rparr>,
             b_r = 0, b_err = None, b_lastByte = -1, b_lastRuneSize = -1\<rparr>,
      offset = 0, line = 0, compressed = False, filename = ''big.rdf'',
      prevOffset = 0, prevLine = 0\<rparr>"

lemma fill_loop_100:
  "fill_loop maxConsecutiveEmptyReads b =
     (let (p, e, s') = src_Read (b_rd b) (defaultBufSize - length (b_buf b));
          b' = b\<lparr>b_buf := b_buf b @ p, b_rd := s'\<rparr>
      in if e \<noteq> None then b'\<lparr>b_err := e\<rparr>
         else if p \<noteq> [] then b'
         else fill_loop 99 b')"
proof -
  have "maxConsecutiveEmptyReads = Suc 99" by (simp add: maxConsecutiveEmptyReads_def)
  then have "fill_loop maxConsecutiveEmptyReads b = fill_loop (Suc 99) b" by (rule arg_cong)
  also note fill_loop.simps(2)
  finally show ?thesis .
qed

lemma Ext_big: "Ext ''big.rdf'' \<noteq> ''.gz''"
  by code_simp

lemma DetectContentType_gzip_hd:
  "DetectContentType_gzip s \<Longrightarrow> \<exists>t. s = 0x1F # t"
  by (cases s) (auto simp: DetectContentType_gzip_def sniffLen_def Let_def)

lemma replicate_4096: "replicate 4096 x = x # replicate 4095 x"
proof -
  have "(4096::nat) = Suc 4095" by simp
  then show ?thesis by (simp only: replicate_Suc)
qed

lemma sniff_big: "\<not> DetectContentType_gzip (take 512 (replicate 4096 0x61))"
proof
  assume "DetectContentType_gzip (take 512 (replicate 4096 0x61))"
  then obtain t where "take 512 (replicate 4096 (0x61 :: byte)) = 0x1F # t"
    by (auto dest: DetectContentType_gzip_hd)
  then show False by (simp add: replicate_4096)
qed

lemma newReader_big_file: "newReader gz big_file = Inr big_reader"
proof -
  let ?b0 = "bufio_NewReader (file_source big_file)"
  let ?b1 = "rd big_reader"
  have f: "fill (?b0\<lparr>b_lastByte := -1, b_lastRuneSize := -1\<rparr>) = ?b1"
    by (simp add: fill_def fill_loop_100 bufio_NewReader_def file_source_def big_file_def
        big_reader_def src_Read_def defaultBufSize_def Let_def)
  have m0: "Peek_more 512 (?b0\<lparr>b_lastByte := -1, b_lastRuneSize := -1\<rparr>)"
    by (simp add: Peek_more_def Buffered_def bufio_NewReader_def defaultBufSize_def)
  have m1: "\<not> Peek_more 512 ?b1"
    by (simp add: Peek_more_def Buffered_def big_reader_def)
  have "Peek_fill 512 (?b0\<lparr>b_lastByte := -1, b_lastRuneSize := -1\<rparr>) = ?b1"
    using f m0 m1
    by (simp add: Peek_fill.simps [of 512 "?b0\<lparr>b_lastByte := -1, b_lastRuneSize := -1\<rparr>"]
        Peek_fill.simps [of 512 ?b1])
  then have "bufio_Peek 512 ?b0 = (take 512 (replicate 4096 0x61), None, ?b1)"
    by (simp add: bufio_Peek_def Let_def defaultBufSize_def Buffered_def big_reader_def
        del: take_replicate)
  with Ext_big sniff_big show ?thesis
    by (simp add: newReader_def Let_def big_file_def big_reader_def del: take_replicate)
qed


lemma IndexByte_replicate: "x \<noteq> d \<Longrightarrow> IndexByte (replicate n x) d = None"
  by (simp add: IndexByte_None)

lemma fill_unfold:
  "fill b = fill_loop maxConsecutiveEmptyReads
       (if b_r b > 0 then b\<lparr>b_buf := drop (b_r b) (b_buf b), b_r := 0\<rparr> else b)"
  by (simp add: fill_def)

lemma ReadSlice_big_1:
  "bufio_ReadSlice 0x0A
      \<lparr>b_buf = replicate 4096 0x61, b_rd = \<lparr>chunks = [], final = EOF, eager = False, kind = OsFile\<rparr>,
        b_r = 0, b_err = None, b_lastByte = -1, b_lastRuneSize = -1\<rparr>
     = (replicate 4096 0x61, Some ErrBufferFull,
      \<lparr>b_buf = replicate 4096 0x61, b_rd = \<lparr>chunks = [], final = EOF, eager = False, kind = OsFile\<rparr>,
        b_r = 4096, b_err = None, b_lastByte = 0x61, b_lastRuneSize = -1\<rparr>)"
proof -
  have "ReadSlice_loop 0x0A 0
      \<lparr>b_buf = replicate 4096 0x61, b_rd = \<lparr>chunks = [], final = EOF, eager = False, kind = OsFile\<rparr>,
        b_r = 0, b_err = None, b_lastByte = -1, b_lastRuneSize = -1\<rparr>
     = (replicate 4096 0x61, Some ErrBufferFull,
      \<lparr>b_buf = replicate 4096 0x61, b_rd = \<lparr>chunks = [], final = EOF, eager = False, kind = OsFile\<rparr>,
        b_r = 4096, b_err = None, b_lastByte = -1, b_lastRuneSize = -1\<rparr>)"
    by (subst ReadSlice_loop.simps)
      (simp add: IndexByte_replicate Buffered_def defaultBufSize_def)
  moreover have "replicate 4096 (0x61 :: byte) \<noteq> []" "last (replicate 4096 (0x61 :: byte)) = 0x61"
    by simp_all
  ultimately show ?thesis
    by (simp add: bufio_ReadSlice_def Let_def)
qed

lemma ReadSlice_big_2:
  "bufio_ReadSlice 0x0A
      \<lparr>b_buf = replicate 4096 0x61, b_rd = \<lparr>chunks = [], final = EOF, eager = False, kind = OsFile\<rparr>,
        b_r = 4096, b_err = None, b_lastByte = 0x61, b_lastRuneSize = -1\<rparr>
     = ([], Some (IO EOF),
      \<lparr>b_buf = [], b_rd = \<lparr>chunks = [], final = EOF, eager = False, kind = OsFile\<rparr>,
        b_r = 0, b_err = None, b_lastByte = 0x61, b_lastRuneSize = -1\<rparr>)"
proof -
  have f: "fill
      \<lparr>b_buf = replicate 4096 0x61, b_rd = \<lparr>chunks = [], final = EOF, eager = False, kind = OsFile\<rparr>,
        b_r = 4096, b_err = None, b_lastByte = 0x61, b_lastRuneSize = -1\<rparr>
     = \<lparr>b_buf = [], b_rd = \<lparr>chunks = [], final = EOF, eager = False, kind = OsFile\<rparr>,
        b_r = 0, b_err = Some (IO EOF), b_lastByte = 0x61, b_lastRuneSize = -1\<rparr>"
    by (simp add: fill_unfold fill_loop_100 src_Read_def Let_def)
  have "ReadSlice_loop 0x0A 0
      \<lparr>b_buf = replicate 4096 0x61, b_rd = \<lparr>chunks = [], final = EOF, eager = False, kind = OsFile\<rparr>,
        b_r = 4096, b_err = None, b_lastByte = 0x61, b_lastRuneSize = -1\<rparr>
     = ReadSlice_loop 0x0A 0
      \<lparr>b_buf = [], b_rd = \<lparr>chunks = [], final = EOF, eager = False, kind = OsFile\<rparr>,
        b_r = 0, b_err = Some (IO EOF), b_lastByte = 0x61, b_lastRuneSize = -1\<rparr>"
    by (subst ReadSlice_loop.simps) (simp add: f Buffered_def defaultBufSize_def)
  also have "\<dots> = ([], Some (IO EOF),
      \<lparr>b_buf = [], b_rd = \<lparr>chunks = [], final = EOF, eager = False, kind = OsFile\<rparr>,
        b_r = 0, b_err = None, b_lastByte = 0x61, b_lastRuneSize = -1\<rparr>)"
    by (subst ReadSlice_loop.simps) simp
  finally show ?thesis
    by (simp add: bufio_ReadSlice_def Let_def)
qed

lemma Count_newline_replicate: "x \<noteq> 0x0A \<Longrightarrow> Count_newline (replicate n x) = 0"
  by (simp add: Count_newline_def)


text \<open>
  The claim C8 as stated fails for \<^verbatim>\<open>ReadSlice\<close>: on the file of 4096 letters \<^verbatim>\<open>a\<close>, without
  any newline, the call that takes the remaining bytes returns them with \<open>ErrBufferFull\<close>,
  and \<^verbatim>\<open>io.EOF\<close> only comes with the empty result of the next call.
\<close>

theorem ReadSlice_full_buffer_counterexample:
  "(case newReader no_gunzip big_file of
      Inl stop \<Rightarrow> False
    | Inr r0 \<Rightarrow>
        concat (fdata big_file) = replicate 4096 0x61
        \<and> (case ReadSlice 0x0A r0 of (a1, e1, r1) \<Rightarrow>
            case ReadSlice 0x0A r1 of (a2, e2, r2) \<Rightarrow>
              a1 = replicate 4096 0x61 \<and> e1 = Some ErrBufferFull
              \<and> a2 = [] \<and> e2 = Some (IO EOF)))"
proof -
  obtain a1 e1 r1 where 1: "ReadSlice 0x0A big_reader = (a1, e1, r1)"
    by (cases "ReadSlice 0x0A big_reader") auto
  obtain a2 e2 r2 where 2: "ReadSlice 0x0A r1 = (a2, e2, r2)"
    by (cases "ReadSlice 0x0A r1") auto
  from ReadSlice_fields [OF 1] ReadSlice_big_1
  have x: "a1 = replicate 4096 0x61" "e1 = Some ErrBufferFull"
    "rd r1 = \<lparr>b_buf = replicate 4096 0x61, b_rd = \<lparr>chunks = [], final = EOF, eager = False, kind = OsFile\<rparr>,
        b_r = 4096, b_err = None, b_lastByte = 0x61, b_lastRuneSize = -1\<rparr>"
    by (auto simp: big_reader_def)
  from ReadSlice_fields [OF 2] ReadSlice_big_2 x(3)
  have y: "a2 = []" "e2 = Some (IO EOF)"
    by auto
  have "concat (fdata big_file) = replicate 4096 0x61"
    by (simp add: big_file_def)
  with 1 2 x y show ?thesis
    by (simp add: newReader_big_file)
qed

fun eof_outcome :: "outcome \<Rightarrow> bool" where
  "eof_outcome (BytesRead bs err) = (bs = [] \<and> err = Some (IO EOF))"
| "eof_outcome (RuneRead c sz err) = (c = 0 \<and> sz = 0 \<and> err = Some (IO EOF))"

definition exhausted :: "Reader \<Rightarrow> bool" where
  "exhausted r = (bufio_inv (rd r) \<and> pending (rd r) = [] \<and> final (b_rd (rd r)) = EOF)"

lemma call_read_exhausted:
  assumes "exhausted r" and "call_read c r = (out, r')"
  shows "eof_outcome out \<and> exhausted r' \<and> offset r' = offset r \<and> line r' = line r"
proof -
  from assms(1) have i: "bufio_inv (rd r)" and p: "pending (rd r) = []"
    and f: "final (b_rd (rd r)) = EOF" by (simp_all add: exhausted_def)
  have st: "stream_ReadString d EOF [] = ([], Some (IO EOF), [])" for d
    by (simp add: stream_ReadString_def)
  show ?thesis
  proof (cases c)
    case (CallReadSlice d)
    from assms(2) CallReadSlice obtain s e
      where a: "ReadSlice d r = (s, e, r')" "out = BytesRead s e"
      by (auto split: prod.splits)
    note fa = ReadSlice_fields [OF a(1)]
    then have ba: "bufio_ReadSlice d (rd r) = (s, e, rd r')" by blast
    have "e \<noteq> Some ErrBufferFull"
      by (rule bufio_ReadSlice_not_full [OF i ba]) (simp add: p defaultBufSize_def)
    from bufio_ReadSlice_stream [OF i ba this] p f st [of d]
    have "bufio_inv (rd r')" "final (b_rd (rd r')) = EOF" "s = []" "e = Some (IO EOF)"
      "pending (rd r') = []" by simp_all
    with fa a show ?thesis by (simp add: exhausted_def Count_newline_def)
  next
    case (CallReadString d)
    from assms(2) CallReadString obtain s e
      where a: "ReadString d r = (s, e, r')" "out = BytesRead s e"
      by (auto split: prod.splits)
    note fa = ReadString_fields [OF a(1)]
    then have ba: "bufio_ReadString d (rd r) = (s, e, rd r')" by blast
    from bufio_ReadString_stream [OF i ba] p f st [of d]
    have "bufio_inv (rd r')" "final (b_rd (rd r')) = EOF" "s = []" "e = Some (IO EOF)"
      "pending (rd r') = []" by simp_all
    with fa a show ?thesis by (simp add: exhausted_def Count_newline_def)
  next
    case CallReadRune
    from assms(2) CallReadRune obtain ch z e
      where a: "ReadRune r = (ch, z, e, r')" "out = RuneRead ch z e"
      by (auto split: prod.splits)
    note fa = ReadRune_fields [OF a(1)]
    then have ba: "bufio_ReadRune (rd r) = (ch, z, e, rd r')" by blast
    from bufio_ReadRune_stream [OF i ba] p f
    have "bufio_inv (rd r')" "final (b_rd (rd r')) = EOF" "ch = 0" "z = 0" "e = Some (IO EOF)"
      "pending (rd r') = []" by (simp_all add: stream_ReadRune_def)
    with fa a show ?thesis by (simp add: exhausted_def)
  qed
qed

lemma run_reads_exhausted:
  assumes "exhausted r" and "run_reads calls r = (outs, r')"
  shows "(\<forall>out \<in> set outs. eof_outcome out) \<and> exhausted r'
         \<and> offset r' = offset r \<and> line r' = line r"
  using assms
proof (induction calls arbitrary: r outs r')
  case Nil
  then show ?case by simp
next
  case (Cons c calls)
  obtain o1 x1 where a: "call_read c r = (o1, x1)" by (cases "call_read c r") auto
  obtain os1 y1 where a': "run_reads calls x1 = (os1, y1)" by (cases "run_reads calls x1") auto
  from Cons.prems(2) a a' have eq: "outs = o1 # os1" "r' = y1" by auto
  note c = call_read_exhausted [OF Cons.prems(1) a]
  then have "exhausted x1" by simp
  from Cons.IH [OF this a'] c eq show ?case by simp
qed


text \<open>
  Claim C8, amended. In a reader state whose remaining stream \<open>rest\<close> is not empty, has no
  delimiter and ends with \<^verbatim>\<open>io.EOF\<close>, \<^verbatim>\<open>ReadString\<close> returns \<open>rest\<close> together with \<^verbatim>\<open>io.EOF\<close>,
  and so does \<^verbatim>\<open>ReadSlice\<close> when \<open>rest\<close> is shorter than the buffer of 4096 bytes. After
  that call every read call returns an empty result with \<^verbatim>\<open>io.EOF\<close>, and \<^verbatim>\<open>Offset()\<close> and
  \<^verbatim>\<open>LineCount()\<close> stay as they are.
\<close>

theorem final_segment_with_EOF:
  assumes "bufio_inv (rd r)" and "final (b_rd (rd r)) = EOF"
    and "pending (rd r) = rest" and "rest \<noteq> []" and "delim \<notin> set rest"
  shows "(case ReadString delim r of (str, e, r1) \<Rightarrow>
            str = rest \<and> e = Some (IO EOF)
            \<and> (\<forall>calls. case run_reads calls r1 of (outs, r2) \<Rightarrow>
                  (\<forall>out \<in> set outs. eof_outcome out)
                  \<and> Offset r2 = Offset r1 \<and> LineCount r2 = LineCount r1))
       \<and> (length rest < defaultBufSize \<longrightarrow>
           (case ReadSlice delim r of (slc, e, r1) \<Rightarrow>
              slc = rest \<and> e = Some (IO EOF)
              \<and> (\<forall>calls. case run_reads calls r1 of (outs, r2) \<Rightarrow>
                    (\<forall>out \<in> set outs. eof_outcome out)
                    \<and> Offset r2 = Offset r1 \<and> LineCount r2 = LineCount r1)))"
proof -
  have st: "stream_ReadString delim EOF rest = (rest, Some (IO EOF), [])"
    using assms(5) by (rule stream_ReadString_Some)
  have after: "\<forall>calls. case run_reads calls r1 of (outs, r2) \<Rightarrow>
                  (\<forall>out \<in> set outs. eof_outcome out)
                  \<and> Offset r2 = Offset r1 \<and> LineCount r2 = LineCount r1"
    if "exhausted r1" for r1
  proof
    fix calls
    obtain outs r2 where x: "run_reads calls r1 = (outs, r2)"
      by (cases "run_reads calls r1") auto
    from run_reads_exhausted [OF that x] x
    show "case run_reads calls r1 of (outs, r2) \<Rightarrow>
                  (\<forall>out \<in> set outs. eof_outcome out)
                  \<and> Offset r2 = Offset r1 \<and> LineCount r2 = LineCount r1"
      by (simp add: Offset_def LineCount_def)
  qed
  have 1: "case ReadString delim r of (str, e, r1) \<Rightarrow>
            str = rest \<and> e = Some (IO EOF)
            \<and> (\<forall>calls. case run_reads calls r1 of (outs, r2) \<Rightarrow>
                  (\<forall>out \<in> set outs. eof_outcome out)
                  \<and> Offset r2 = Offset r1 \<and> LineCount r2 = LineCount r1)"
  proof -
    obtain str e r1 where a: "ReadString delim r = (str, e, r1)"
      by (cases "ReadString delim r") auto
    from ReadString_fields [OF a]
    have ba: "bufio_ReadString delim (rd r) = (str, e, rd r1)" by blast
    from bufio_ReadString_stream [OF assms(1) ba] assms(2,3) st
    have "str = rest" "e = Some (IO EOF)" "exhausted r1"
      by (simp_all add: exhausted_def)
    with after [of r1] a show ?thesis by simp
  qed
  have 2: "case ReadSlice delim r of (slc, e, r1) \<Rightarrow>
              slc = rest \<and> e = Some (IO EOF)
              \<and> (\<forall>calls. case run_reads calls r1 of (outs, r2) \<Rightarrow>
                    (\<forall>out \<in> set outs. eof_outcome out)
                    \<and> Offset r2 = Offset r1 \<and> LineCount r2 = LineCount r1)"
    if short: "length rest < defaultBufSize"
  proof -
    obtain slc e r1 where a: "ReadSlice delim r = (slc, e, r1)"
      by (cases "ReadSlice delim r") auto
    from ReadSlice_fields [OF a]
    have ba: "bufio_ReadSlice delim (rd r) = (slc, e, rd r1)" by blast
    have "e \<noteq> Some ErrBufferFull"
      by (rule bufio_ReadSlice_not_full [OF assms(1) ba]) (simp add: assms(3) short)
    from bufio_ReadSlice_stream [OF assms(1) ba this] assms(2,3) st
    have "slc = rest" "e = Some (IO EOF)" "exhausted r1"
      by (simp_all add: exhausted_def)
    with after [of r1] a show ?thesis by simp
  qed
  from 1 2 show ?thesis by blast
qed

text \<open>The reader on the three lines after two lines have been read: \<^verbatim>\<open>ccc\<close> remains.\<close>

definition ccc_reader :: Reader where
  "ccc_reader =
     \<lparr>rd = \<lparr>b_buf = [0x61, 0x0A, 0x62, 0x62, 0x0A, 0x63, 0x63, 0x63],
             b_rd = \<lparr>chunks = [], final = EOF, eager = False, kind = OsFile\<rparr>,
             b_r = 5, b_err = None, b_lastByte = 10, b_lastRuneSize = -1\<rparr>,
      offset = 5, line = 2, compressed = False, filename = ''data.rdf'',
      prevOffset = 2, prevLine = 1\<rparr>"

lemma ccc_reader_reached:
  "(case ReadSlice 0x0A abc_reader of (a1, e1, r1) \<Rightarrow>
    case ReadSlice 0x0A r1 of (a2, e2, r2) \<Rightarrow> r2 = ccc_reader)"
  by code_simp

theorem final_segment_with_EOF_witness:
  "bufio_inv (rd ccc_reader) \<and> final (b_rd (rd ccc_reader)) = EOF
   \<and> pending (rd ccc_reader) = [0x63, 0x63, 0x63] \<and> 0x0A \<notin> set [0x63, 0x63, 0x63 :: byte]
   \<and> (case ReadString 0x0A ccc_reader of (str, e, r1) \<Rightarrow>
        str = [0x63, 0x63, 0x63] \<and> e = Some (IO EOF)
        \<and> (case run_reads [CallReadString 0x0A, CallReadSlice 0x0A, CallReadRune] r1 of
             (outs, r2) \<Rightarrow>
               list_all eof_outcome outs \<and> Offset r2 = 8 \<and> LineCount r2 = 2))
   \<and> (case ReadSlice 0x0A ccc_reader of (slc, e, r1) \<Rightarrow>
        slc = [0x63, 0x63, 0x63] \<and> e = Some (IO EOF))"
proof -
  have h: "bufio_inv (rd ccc_reader)" "final (b_rd (rd ccc_reader)) = EOF"
    "pending (rd ccc_reader) = [0x63, 0x63, 0x63]" "[0x63, 0x63, 0x63 :: byte] \<noteq> []"
    "0x0A \<notin> set [0x63, 0x63, 0x63 :: byte]"
    by (simp_all add: bufio_inv_def pending_def ccc_reader_def defaultBufSize_def)
  note t = final_segment_with_EOF [OF h]
  obtain str e r1 where a: "ReadString 0x0A ccc_reader = (str, e, r1)"
    by (cases "ReadString 0x0A ccc_reader") auto
  obtain outs r2
    where b: "run_reads [CallReadString 0x0A, CallReadSlice 0x0A, CallReadRune] r1 = (outs, r2)"
    by (cases "run_reads [CallReadString 0x0A, CallReadSlice 0x0A, CallReadRune] r1") auto
  obtain slc e' r1' where c: "ReadSlice 0x0A ccc_reader = (slc, e', r1')"
    by (cases "ReadSlice 0x0A ccc_reader") auto
  from t a have s: "str = [0x63, 0x63, 0x63]" "e = Some (IO EOF)"
    and al: "\<forall>calls. case run_reads calls r1 of (outs, r2) \<Rightarrow>
                  (\<forall>out \<in> set outs. eof_outcome out)
                  \<and> Offset r2 = Offset r1 \<and> LineCount r2 = LineCount r1"
    by simp_all
  from al [rule_format, of "[CallReadString 0x0A, CallReadSlice 0x0A, CallReadRune]"] b
  have o: "list_all eof_outcome outs" "Offset r2 = Offset r1" "LineCount r2 = LineCount r1"
    by (simp_all add: list_all_iff)
  from ReadString_fields [OF a] s have "Offset r1 = 8" "LineCount r1 = 2"
    by (simp_all add: Offset_def LineCount_def ccc_reader_def Count_newline_def)
  with o have o': "Offset r2 = 8" "LineCount r2 = 2" by simp_all
  from t c have s': "slc = [0x63, 0x63, 0x63]" "e' = Some (IO EOF)"
    by (simp_all add: defaultBufSize_def)
  from h a b c s s' o o' show ?thesis by simp
qed



section \<open>Plain and gzip-compressed files\<close>






text \<open>
  The three lines compressed under the name \<^verbatim>\<open>data.rdf.gz\<close>, and 4096 letters \<^verbatim>\<open>a\<close>
  compressed under the name \<^verbatim>\<open>big.rdf.gz\<close>, with the readers \<^verbatim>\<open>newReader\<close> returns for them.
\<close>

definition abc_gz_file :: osfile where
  "abc_gz_file = \<lparr>fname = ''data.rdf.gz'', fdata = [abc_gzip]\<rparr>"

definition abc_gz_reader :: Reader where
  "abc_gz_reader =
     \<lparr>rd = \<lparr>b_buf = [],
             b_rd = \<lparr>chunks = [[0x61, 0x0A, 0x62, 0x62, 0x0A, 0x63, 0x63, 0x63]],
                      final = EOF, eager = True, kind = GzipReader OsFile\<rparr>,
             b_r = 0, b_err = None, b_lastByte = -1, b_lastRuneSize = -1\<rparr>,
      offset = 0, line = 0, compressed = True, filename = ''data.rdf.gz'',
      prevOffset = 0, prevLine = 0\<rparr>"

lemma newReader_abc_gz_file: "newReader example_gunzip abc_gz_file = Inr abc_gz_reader"
  by code_simp













end
